theory Spec2Isabelle
  imports Main "HOL-Library.Word" "HOL-Library.Monad_Syntax"
begin

unbundle bit_operations_syntax

section \<open>Memory model\<close>

text \<open>
  The source is \<^verbatim>\<open>queue.c\<close> of lab0-c: a queue of strings kept in a circular doubly
  linked list with a sentinel (\<^verbatim>\<open>struct list_head\<close>), one \<^verbatim>\<open>element_t\<close> per string.
  Pointers are 64-bit words (LP64, where \<^verbatim>\<open>size_t\<close> and \<^verbatim>\<open>intptr_t\<close> have 64 bits and
  \<^verbatim>\<open>int\<close> has 32); \<^verbatim>\<open>NULL\<close> is 0. The heap is an explicit store:
  \<^item> \<open>nxt\<close> and \<open>prv\<close> hold the fields \<^verbatim>\<open>next\<close> and \<^verbatim>\<open>prev\<close> of the \<^verbatim>\<open>list_head\<close> at an address;
  \<^item> \<open>val\<close> holds the field \<^verbatim>\<open>value\<close> of the \<^verbatim>\<open>element_t\<close> that embeds that \<^verbatim>\<open>list_head\<close>
    (\<^verbatim>\<open>list_entry\<close> subtracts a constant offset, so an element is named by the address of
    its \<^verbatim>\<open>list\<close> member);
  \<^item> \<open>cstr\<close> holds the characters before the terminating NUL of the string at an address;
  \<^item> \<open>live\<close> is the set of blocks handed out by \<^verbatim>\<open>malloc\<close>/\<^verbatim>\<open>strdup\<close> and not yet freed.
  Signed 32-bit arithmetic wraps around (two's complement), as the machine does; C leaves
  signed overflow undefined.
\<close>

type_synonym ptr = "64 word"
type_synonym size_t = "64 word"
type_synonym intptr_t = "64 word"
type_synonym int32_t = "32 word"

record heap =
  nxt :: "ptr \<Rightarrow> ptr"
  prv :: "ptr \<Rightarrow> ptr"
  val :: "ptr \<Rightarrow> ptr"
  cstr :: "ptr \<Rightarrow> string"
  live :: "ptr set"

definition set_next :: "heap \<Rightarrow> ptr \<Rightarrow> ptr \<Rightarrow> heap" where
  "set_next h p q = h\<lparr>nxt := (nxt h)(p := q)\<rparr>"

definition set_prev :: "heap \<Rightarrow> ptr \<Rightarrow> ptr \<Rightarrow> heap" where
  "set_prev h p q = h\<lparr>prv := (prv h)(p := q)\<rparr>"

definition set_value :: "heap \<Rightarrow> ptr \<Rightarrow> ptr \<Rightarrow> heap" where
  "set_value h p q = h\<lparr>val := (val h)(p := q)\<rparr>"

subsection \<open>The allocator and the C library\<close>

text \<open>
  Modelled from the spec: the allocator is an external collaborator that returns null on
  failure. The address it answers with is an argument of each operation that allocates
  (0 when the allocation fails); \<open>malloc\<close> records a block as live, \<open>free\<close> retires it.
\<close>

definition malloc :: "heap \<Rightarrow> ptr \<Rightarrow> heap" where
  "malloc h p = (if p = 0 then h else h\<lparr>live := insert p (live h)\<rparr>)"

definition free :: "heap \<Rightarrow> ptr \<Rightarrow> heap" where
  "free h p = h\<lparr>live := live h - {p}\<rparr>"

definition strdup :: "heap \<Rightarrow> string \<Rightarrow> ptr \<Rightarrow> heap" where
  "strdup h s p = (if p = 0 then h else (malloc h p)\<lparr>cstr := (cstr h)(p := s)\<rparr>)"

definition strlen :: "string \<Rightarrow> size_t" where
  "strlen s = of_nat (length s)"

text \<open>
  Modelled from the C library: \<^verbatim>\<open>strcmp\<close> compares two strings byte by byte as unsigned
  characters and answers with a negative number, zero or a positive number.
\<close>

fun strcmp :: "string \<Rightarrow> string \<Rightarrow> int" where
  "strcmp [] [] = 0"
| "strcmp [] (y # ys) = - 1"
| "strcmp (x # xs) [] = 1"
| "strcmp (x # xs) (y # ys) =
     (if x = y then strcmp xs ys else int (of_char x) - int (of_char y))"

text \<open>Modelled from the C library: \<^verbatim>\<open>abs\<close> on \<^verbatim>\<open>int\<close>.\<close>

definition abs_c :: "int32_t \<Rightarrow> int32_t" where
  "abs_c a = (if a <s 0 then - a else a)"

subsection \<open>The list primitives\<close>

text \<open>
  Modelled from the spec: \<^verbatim>\<open>list.h\<close> is not among the sources. These are the primitives of
  the sentinel-based circular doubly linked list the spec names (initialize-empty,
  link-at-head, link-at-tail, unlink, is-empty), each a sequence of field assignments.
\<close>

definition INIT_LIST_HEAD :: "heap \<Rightarrow> ptr \<Rightarrow> heap" where
  "INIT_LIST_HEAD h head = set_prev (set_next h head head) head head"

definition list_empty :: "heap \<Rightarrow> ptr \<Rightarrow> bool" where
  "list_empty h head = (nxt h head = head)"

definition list_add :: "heap \<Rightarrow> ptr \<Rightarrow> ptr \<Rightarrow> heap" where
  "list_add h node head =
     (let next = nxt h head;
          h1 = set_prev h next node;
          h2 = set_next h1 node next;
          h3 = set_prev h2 node head
      in set_next h3 head node)"

definition list_add_tail :: "heap \<Rightarrow> ptr \<Rightarrow> ptr \<Rightarrow> heap" where
  "list_add_tail h node head =
     (let prev = prv h head;
          h1 = set_next h prev node;
          h2 = set_next h1 node head;
          h3 = set_prev h2 node prev
      in set_prev h3 head node)"

definition list_del :: "heap \<Rightarrow> ptr \<Rightarrow> heap" where
  "list_del h node =
     (let next = nxt h node;
          prev = prv h node;
          h1 = set_prev h next prev
      in set_next h1 prev next)"

section \<open>The queue operations\<close>

subsection \<open>Creation, insertion, release\<close>

definition q_new :: "heap \<Rightarrow> ptr \<Rightarrow> ptr \<times> heap" where
  "q_new h p = (let h1 = malloc h p in (p, if p \<noteq> 0 then INIT_LIST_HEAD h1 p else h1))"

text \<open>\<open>pn\<close> is the answer of \<^verbatim>\<open>malloc\<close> for the element, \<open>ps\<close> that of \<^verbatim>\<open>strdup\<close>.\<close>

definition q_insert_head :: "heap \<Rightarrow> ptr \<Rightarrow> string \<Rightarrow> ptr \<Rightarrow> ptr \<Rightarrow> bool \<times> heap" where
  "q_insert_head h head s pn ps =
     (if head = 0 then (False, h)
      else let h1 = malloc h pn in
        if pn = 0 then (False, h1)
        else let h2 = set_value (strdup h1 s ps) pn ps in
          if val h2 pn = 0 then (False, free h2 pn)
          else (True, list_add h2 pn head))"

definition q_insert_tail :: "heap \<Rightarrow> ptr \<Rightarrow> string \<Rightarrow> ptr \<Rightarrow> ptr \<Rightarrow> bool \<times> heap" where
  "q_insert_tail h head s pn ps =
     (if head = 0 then (False, h)
      else let h1 = malloc h pn in
        if pn = 0 then (False, h1)
        else let h2 = set_value (strdup h1 s ps) pn ps in
          if val h2 pn = 0 then (False, free h2 pn)
          else (True, list_add_tail h2 pn head))"

definition q_release_element :: "heap \<Rightarrow> ptr \<Rightarrow> heap" where
  "q_release_element h e = free (free h (val h e)) e"

subsection \<open>Removal with copy-out\<close>

definition abs_branchless :: "int32_t \<Rightarrow> int32_t" where
  "abs_branchless a = (if 0 <s a then a else - a)"

definition min_c :: "int32_t \<Rightarrow> int32_t \<Rightarrow> int32_t" where
  "min_c a b = (if 0 <s a - b then b else a)"

text \<open>
  \<^verbatim>\<open>node->value[k]\<close>: the block that \<^verbatim>\<open>strdup\<close> made holds the characters and one NUL; an
  index past it reads whatever the machine has there, the argument \<open>past\<close>.
\<close>

definition value_at :: "string \<Rightarrow> (nat \<Rightarrow> char) \<Rightarrow> nat \<Rightarrow> char" where
  "value_at v past k =
     (if k < length v then v ! k
      else if k = length v then CHR 0x00
      else past (k - Suc (length v)))"

text \<open>\<^verbatim>\<open>c & mask\<close>, stored into a \<^verbatim>\<open>char\<close>: the low eight bits.\<close>

definition and_mask_char :: "char \<Rightarrow> intptr_t \<Rightarrow> char" where
  "and_mask_char c m = char_of (unat ((of_char c :: intptr_t) AND m))"

text \<open>
  The copy loop of \<^verbatim>\<open>q_remove_head\<close> and \<^verbatim>\<open>q_remove_tail\<close>. The destination \<^verbatim>\<open>sp\<close> is
  seen as the bytes from its address on: \<open>buf k\<close> is \<^verbatim>\<open>sp[k]\<close>.
\<close>

function copy_loop ::
  "string \<Rightarrow> (nat \<Rightarrow> char) \<Rightarrow> size_t \<Rightarrow> int32_t \<Rightarrow> (nat \<Rightarrow> char) \<Rightarrow> nat \<Rightarrow> char" where
  "copy_loop v past i len buf =
     (if 0 \<le>s len then
        let mask = - (of_bool ((scast len XOR i) \<noteq> 0)) :: intptr_t;
            k = nat (sint len);
            buf1 = buf(k := and_mask_char (value_at v past k) mask)
        in copy_loop v past i (len - 1) buf1
      else buf)"
  by pat_completeness auto
termination
proof (relation "measure (\<lambda>(v, past, i, len, buf). nat (sint len + 1))", goal_cases)
  case 1
  show ?case by simp
next
  case (2 v past i len buf x xa xb)
  from 2(1) have nonneg: "0 \<le> sint len"
    by (simp add: word_sle_eq)
  have "sint (len - 1) = sint len - 1"
    using nonneg sint_lt [of len]
    by (simp add: sint_word_diff signed_take_bit_int_eq_self_iff)
  with nonneg show ?case
    by simp
qed

declare copy_loop.simps [simp del]

definition q_remove_head ::
  "heap \<Rightarrow> ptr \<Rightarrow> ptr \<Rightarrow> (nat \<Rightarrow> char) \<Rightarrow> size_t \<Rightarrow> (nat \<Rightarrow> char)
     \<Rightarrow> (ptr \<times> heap \<times> (nat \<Rightarrow> char)) option" where
  "q_remove_head h head sp buf bufsize past =
     (if head = 0 \<or> list_empty h head then None
      else
        let node = nxt h head;
            h1 = list_del h node;
            v = cstr h1 (val h1 node);
            len = min_c (min_c (ucast (bufsize - 1)) (ucast (strlen v + 1)))
                        (abs_branchless (ucast sp) - 1);
            i = scast len
        in Some (node, h1, copy_loop v past i len buf))"

definition q_remove_tail ::
  "heap \<Rightarrow> ptr \<Rightarrow> ptr \<Rightarrow> (nat \<Rightarrow> char) \<Rightarrow> size_t \<Rightarrow> (nat \<Rightarrow> char)
     \<Rightarrow> (ptr \<times> heap \<times> (nat \<Rightarrow> char)) option" where
  "q_remove_tail h head sp buf bufsize past =
     (if head = 0 \<or> list_empty h head then None
      else
        let node = prv h head;
            h1 = list_del h node;
            v = cstr h1 (val h1 node);
            len = min_c (min_c (ucast (bufsize - 1)) (ucast (strlen v + 1)))
                        (abs_c (ucast sp) - 1);
            i = scast len
        in Some (node, h1, copy_loop v past i len buf))"

subsection \<open>Deleting the middle element\<close>

text \<open>The \<^verbatim>\<open>while (!node)\<close> loop of \<^verbatim>\<open>q_delete_mid\<close>; it only reads the heap.\<close>

partial_function (option) mid_loop :: "heap \<Rightarrow> ptr \<Rightarrow> ptr \<Rightarrow> ptr \<Rightarrow> ptr option" where
  "mid_loop h node next prev =
     (if node \<noteq> 0 then Some node
      else
        let node1 = (if next = prev then next else node);
            node2 = (if nxt h next = prev then prev else node1)
        in mid_loop h node2 (nxt h next) (prv h prev))"

declare mid_loop.simps [code]

definition q_delete_mid :: "heap \<Rightarrow> ptr \<Rightarrow> (bool \<times> heap) option" where
  "q_delete_mid h head =
     (if head = 0 \<or> list_empty h head then Some (False, h)
      else do {
        node \<leftarrow> mid_loop h 0 (nxt h head) (prv h head);
        Some (True, q_release_element (list_del h node) node)
      })"

subsection \<open>Deleting duplicates\<close>

text \<open>
  \<^verbatim>\<open>del_patten && !strcmp(del_patten, node->value)\<close>, then unlink and release \<^verbatim>\<open>node\<close>.
\<close>

definition del_if_match :: "heap \<Rightarrow> ptr \<Rightarrow> ptr \<Rightarrow> heap" where
  "del_if_match h del_patten node =
     (if del_patten \<noteq> 0 \<and> strcmp (cstr h del_patten) (cstr h (val h node)) = 0
      then q_release_element (list_del h node) node
      else h)"

definition dup_mask :: "heap \<Rightarrow> ptr \<Rightarrow> ptr \<Rightarrow> ptr \<Rightarrow> intptr_t" where
  "dup_mask h del_patten node safe =
     - (of_bool (strcmp (cstr h (val h node)) (cstr h (val h safe)) = 0))
       OR of_bool (val h node = del_patten)"

partial_function (option) dup_loop ::
  "ptr \<Rightarrow> heap \<Rightarrow> ptr \<Rightarrow> ptr \<Rightarrow> ptr \<Rightarrow> (heap \<times> ptr \<times> ptr) option" where
  "dup_loop head h del_patten node safe =
     (if safe = head then Some (h, del_patten, node)
      else
        let mask = dup_mask h del_patten node safe;
            del_patten1 = val h safe AND mask;
            h1 = del_if_match h del_patten1 node
        in dup_loop head h1 del_patten1 safe (nxt h1 safe))"

declare dup_loop.simps [code]

definition q_delete_dup :: "heap \<Rightarrow> ptr \<Rightarrow> (bool \<times> heap) option" where
  "q_delete_dup h head =
     (if head = 0 then Some (False, h)
      else do {
        (h1, del_patten, node) \<leftarrow> dup_loop head h 0 (nxt h head) (nxt h (nxt h head));
        Some (True, del_if_match h1 del_patten node)
      })"

subsection \<open>Swapping pairs and reversing\<close>

text \<open>
  \<^verbatim>\<open>list_for_each_safe (node, safe, head)\<close> is
  \<^verbatim>\<open>for (node = head->next, safe = node->next; node != head; node = safe, safe = node->next)\<close>.
\<close>

partial_function (option) swap_loop :: "ptr \<Rightarrow> heap \<Rightarrow> ptr \<Rightarrow> ptr \<Rightarrow> heap option" where
  "swap_loop head h node safe =
     (if node = head then Some h
      else if safe = head then Some h
      else
        let h1 = list_del h node;
            h2 = list_add h1 node safe;
            safe1 = nxt h2 node
        in swap_loop head h2 safe1 (nxt h2 safe1))"

declare swap_loop.simps [code]

definition q_swap :: "heap \<Rightarrow> ptr \<Rightarrow> heap option" where
  "q_swap h head =
     (if head = 0 then Some h
      else swap_loop head h (nxt h head) (nxt h (nxt h head)))"

partial_function (option) reverse_loop ::
  "ptr \<Rightarrow> heap \<Rightarrow> ptr \<Rightarrow> ptr \<Rightarrow> (heap \<times> ptr \<times> ptr) option" where
  "reverse_loop head h node safe =
     (if node = head then Some (h, node, safe)
      else
        let h1 = set_next h node (prv h node);
            h2 = set_prev h1 node safe
        in reverse_loop head h2 safe (nxt h2 safe))"

declare reverse_loop.simps [code]

definition q_reverse :: "heap \<Rightarrow> ptr \<Rightarrow> heap option" where
  "q_reverse h head =
     (if head = 0 then Some h
      else do {
        (h1, node, safe) \<leftarrow> reverse_loop head h (nxt h head) (nxt h (nxt h head));
        let h2 = set_next h1 node (prv h1 node);
        Some (set_prev h2 node safe)
      })"

subsection \<open>Sorting\<close>

text \<open>
  In \<^verbatim>\<open>merge\<close>, \<^verbatim>\<open>tail\<close> points either to the local \<^verbatim>\<open>sorted\<close> (here \<open>sorted_p\<close>) or to the \<^verbatim>\<open>next\<close> field of a
  node: a \<open>slot\<close>. \<open>store\<close> is \<^verbatim>\<open>*tail = p\<close>, \<open>load\<close> is \<^verbatim>\<open>*tail\<close>.
\<close>

datatype slot = Sorted | Next_of ptr

definition store :: "heap \<Rightarrow> ptr \<Rightarrow> slot \<Rightarrow> ptr \<Rightarrow> heap \<times> ptr" where
  "store h sorted_p tail p =
     (case tail of Sorted \<Rightarrow> (h, p) | Next_of n \<Rightarrow> (set_next h n p, sorted_p))"

definition load :: "heap \<Rightarrow> ptr \<Rightarrow> slot \<Rightarrow> ptr" where
  "load h sorted_p tail = (case tail of Sorted \<Rightarrow> sorted_p | Next_of n \<Rightarrow> nxt h n)"

partial_function (option) merge_loop ::
  "heap \<Rightarrow> ptr \<Rightarrow> slot \<Rightarrow> ptr \<Rightarrow> ptr \<Rightarrow> (heap \<times> ptr) option" where
  "merge_loop h sorted_p tail a b =
     (if a \<noteq> 0 \<and> b \<noteq> 0 then
        let first = (strcmp (cstr h (val h a)) (cstr h (val h b)) \<le> 0);
            (h1, sorted_p1) = store h sorted_p tail (if first then a else b);
            a1 = (if first then nxt h1 a else a);
            b1 = (if first then b else nxt h1 b);
            tail1 = Next_of (load h1 sorted_p1 tail)
        in merge_loop h1 sorted_p1 tail1 a1 b1
      else Some (store h sorted_p tail (a OR b)))"

declare merge_loop.simps [code]

definition merge :: "heap \<Rightarrow> ptr \<Rightarrow> ptr \<Rightarrow> (heap \<times> ptr) option" where
  "merge h a b = merge_loop h 0 Sorted a b"

partial_function (option) split_loop :: "heap \<Rightarrow> ptr \<Rightarrow> ptr \<Rightarrow> ptr option" where
  "split_loop h mid last_p =
     (if last_p \<noteq> 0 \<and> nxt h last_p \<noteq> 0
      then split_loop h (nxt h mid) (nxt h (nxt h last_p))
      else Some mid)"

declare split_loop.simps [code]

partial_function (option) merge_sort :: "heap \<Rightarrow> ptr \<Rightarrow> (heap \<times> ptr) option" where
  "merge_sort h head =
     (if nxt h head = 0 then Some (h, head)
      else do {
        last_p \<leftarrow> split_loop h head (nxt h head);
        let mid = nxt h last_p;
        let h1 = set_next h last_p 0;
        (h2, head1) \<leftarrow> merge_sort h1 head;
        (h3, mid1) \<leftarrow> merge_sort h2 mid;
        merge h3 head1 mid1
      })"

declare merge_sort.simps [code]

partial_function (option) relink_loop :: "heap \<Rightarrow> ptr \<Rightarrow> (heap \<times> ptr) option" where
  "relink_loop h tail =
     (if nxt h tail \<noteq> 0
      then let h1 = set_prev h (nxt h tail) tail in relink_loop h1 (nxt h1 tail)
      else Some (h, tail))"

declare relink_loop.simps [code]

definition q_sort :: "heap \<Rightarrow> ptr \<Rightarrow> heap option" where
  "q_sort h head =
     (if head = 0 \<or> nxt h head = prv h head then Some h
      else do {
        let h1 = set_next h (prv h head) 0;
        (h2, tail) \<leftarrow> merge_sort h1 (nxt h1 head);
        let h3 = set_next h2 head tail;
        let h4 = set_prev h3 tail head;
        (h5, tail1) \<leftarrow> relink_loop h4 tail;
        let h6 = set_prev h5 head tail1;
        Some (set_next h6 tail1 head)
      })"

section \<open>Queues in the heap\<close>

text \<open>
  \<open>linked n p l\<close>: along the list \<open>l\<close> of addresses every node's \<^verbatim>\<open>next\<close> is its right
  neighbour and every node's \<^verbatim>\<open>prev\<close> is its left neighbour.
\<close>

fun linked :: "(ptr \<Rightarrow> ptr) \<Rightarrow> (ptr \<Rightarrow> ptr) \<Rightarrow> ptr list \<Rightarrow> bool" where
  "linked n p (a # b # cs) = (n a = b \<and> p b = a \<and> linked n p (b # cs))"
| "linked n p [a] = True"
| "linked n p [] = True"

text \<open>
  \<open>is_queue h head xs\<close>: in the heap \<open>h\<close> the sentinel \<open>head\<close> and the elements \<open>xs\<close>, in
  traversal order, form one well-formed ring: from the sentinel through every element
  and back to the sentinel, with no address twice and none null.
\<close>

definition is_queue :: "heap \<Rightarrow> ptr \<Rightarrow> ptr list \<Rightarrow> bool" where
  "is_queue h head xs =
     (head \<noteq> 0 \<and> 0 \<notin> set xs \<and> distinct (head # xs) \<and>
      linked (nxt h) (prv h) (head # xs @ [head]))"

text \<open>
  The invariant of the data model, node by node: the successor's predecessor and the
  predecessor's successor of every node of the ring, the sentinel included, is the node.
\<close>

definition circular :: "heap \<Rightarrow> ptr \<Rightarrow> ptr list \<Rightarrow> bool" where
  "circular h head xs =
     list_all (\<lambda>n. prv h (nxt h n) = n \<and> nxt h (prv h n) = n) (head # xs)"

text \<open>A queue that is well-formed, with the invariant spelt out.\<close>

definition ring_ok :: "heap \<Rightarrow> ptr \<Rightarrow> ptr list \<Rightarrow> bool" where
  "ring_ok h head xs = (is_queue h head xs \<and> circular h head xs)"

text \<open>The strings of a list of elements.\<close>

definition strings :: "heap \<Rightarrow> ptr list \<Rightarrow> string list" where
  "strings h xs = map (\<lambda>x. cstr h (val h x)) xs"

text \<open>
  A chain: \<open>seg n p xs q\<close> says that following \<open>n\<close> from \<open>p\<close> one passes the nodes \<open>xs\<close> and
  arrives at \<open>q\<close>; with \<open>q = 0\<close> it is the null-terminated chain that \<^verbatim>\<open>merge_sort\<close> works on.
\<close>

fun seg :: "(ptr \<Rightarrow> ptr) \<Rightarrow> ptr \<Rightarrow> ptr list \<Rightarrow> ptr \<Rightarrow> bool" where
  "seg n p [] q = (p = q)"
| "seg n p (x # xs) q = (p = x \<and> seg n (n x) xs q)"

text \<open>
  The invariant of the loop of \<^verbatim>\<open>merge\<close>: \<open>ds\<close> are the nodes already appended, \<open>tail\<close>
  points to the link that the next node goes into.
\<close>

definition tail_inv :: "heap \<Rightarrow> ptr \<Rightarrow> slot \<Rightarrow> ptr list \<Rightarrow> bool" where
  "tail_inv h sorted_p tail ds =
     (case tail of Sorted \<Rightarrow> ds = []
      | Next_of d \<Rightarrow> ds \<noteq> [] \<and> d = last ds \<and> seg (nxt h) sorted_p (butlast ds) d)"

subsection \<open>The operations in the spec's words\<close>

text \<open>Exchanging the 1st and 2nd element, the 3rd and 4th, and so on; an odd last one stays.\<close>

fun swap_pairs :: "'a list \<Rightarrow> 'a list" where
  "swap_pairs (a # b # rest) = b # a # swap_pairs rest"
| "swap_pairs [a] = [a]"
| "swap_pairs [] = []"

text \<open>
  Merge sort on a list of elements with the strings \<open>k\<close>, as the spec describes it: the
  halves have \<open>(n + 1) div 2\<close> and \<open>n div 2\<close> elements, and a merge takes from the first
  list on a tie.
\<close>

fun merge_list :: "('a \<Rightarrow> string) \<Rightarrow> 'a list \<Rightarrow> 'a list \<Rightarrow> 'a list" where
  "merge_list k [] ys = ys"
| "merge_list k xs [] = xs"
| "merge_list k (x # xs) (y # ys) =
     (if strcmp (k x) (k y) \<le> 0 then x # merge_list k xs (y # ys)
      else y # merge_list k (x # xs) ys)"

function msort :: "('a \<Rightarrow> string) \<Rightarrow> 'a list \<Rightarrow> 'a list" where
  "msort k xs =
     (if length xs \<le> 1 then xs
      else let m = (length xs + 1) div 2
           in merge_list k (msort k (take m xs)) (msort k (drop m xs)))"
  by pat_completeness auto
termination
  by (relation "measure (\<lambda>(k, xs). length xs)") auto

declare msort.simps [simp del]

text \<open>Ascending lexicographic order of strings, characters compared as unsigned bytes.\<close>

definition lex_le :: "string \<Rightarrow> string \<Rightarrow> bool" where
  "lex_le a b \<longleftrightarrow> a = b \<or> (a, b) \<in> lexord {(x, y). (of_char x :: nat) < of_char y}"

text \<open>
  What \<open>q_delete_dup\<close> leaves of a list of elements with the strings \<open>k\<close>: an element
  goes when its successor holds the same string, and the last one goes when its
  predecessor did (\<open>d\<close> tells whether the element before the list held the string of its
  first element).
\<close>

fun dup_kept :: "('a \<Rightarrow> string) \<Rightarrow> bool \<Rightarrow> 'a list \<Rightarrow> 'a list" where
  "dup_kept k d [] = []"
| "dup_kept k d [x] = (if d then [] else [x])"
| "dup_kept k d (x # y # zs) =
     (if k x = k y then dup_kept k True (y # zs) else x # dup_kept k False (y # zs))"

subsection \<open>Example queues\<close>

text \<open>
  An example queue is built by the operations themselves: \<open>q_new\<close> on the empty store,
  then one \<open>q_insert_tail\<close> per item \<open>(s, pn, ps)\<close>, the string and the two addresses the
  allocator answers with.
\<close>

definition empty_heap :: heap where
  "empty_heap = \<lparr>nxt = (\<lambda>_. 0), prv = (\<lambda>_. 0), val = (\<lambda>_. 0), cstr = (\<lambda>_. []), live = {}\<rparr>"

fun enqueue_all :: "heap \<Rightarrow> ptr \<Rightarrow> (string \<times> ptr \<times> ptr) list \<Rightarrow> heap" where
  "enqueue_all h head [] = h"
| "enqueue_all h head ((s, pn, ps) # items) =
     enqueue_all (snd (q_insert_tail h head s pn ps)) head items"

definition queue_of :: "ptr \<Rightarrow> (string \<times> ptr \<times> ptr) list \<Rightarrow> heap" where
  "queue_of head items = enqueue_all (snd (q_new empty_heap head)) head items"

fun item_text :: "string \<times> ptr \<times> ptr \<Rightarrow> string" where
  "item_text (s, pn, ps) = s"

fun item_node :: "string \<times> ptr \<times> ptr \<Rightarrow> ptr" where
  "item_node (s, pn, ps) = pn"

fun item_block :: "string \<times> ptr \<times> ptr \<Rightarrow> ptr" where
  "item_block (s, pn, ps) = ps"

definition two_queue :: heap where
  "two_queue = queue_of 0x1000 [(''hello'', 0x2000, 0x3000), (''bye'', 0x2020, 0x3020)]"

definition five_queue :: heap where
  "five_queue = queue_of 0x1000
     [(''a'', 0x2000, 0x3000), (''b'', 0x2020, 0x3020), (''c'', 0x2040, 0x3040),
      (''d'', 0x2060, 0x3060), (''e'', 0x2080, 0x3080)]"

definition six_queue :: heap where
  "six_queue = queue_of 0x1000
     [(''a'', 0x2000, 0x3000), (''b'', 0x2020, 0x3020), (''c'', 0x2040, 0x3040),
      (''d'', 0x2060, 0x3060), (''e'', 0x2080, 0x3080), (''f'', 0x20a0, 0x30a0)]"

definition dup_queue :: heap where
  "dup_queue = queue_of 0x1000
     [(''a'', 0x2000, 0x3000), (''a'', 0x2020, 0x3020), (''b'', 0x2040, 0x3040),
      (''c'', 0x2060, 0x3060), (''c'', 0x2080, 0x3080)]"

definition sort_queue :: heap where
  "sort_queue = queue_of 0x1000
     [(''b'', 0x2000, 0x3000), (''c'', 0x2020, 0x3020), (''a'', 0x2040, 0x3040),
      (''b'', 0x2060, 0x3060)]"

text \<open>
  What one sees of the result of an operation that answers with a flag and a store:
  the flag, whether the elements \<open>ys\<close> in this order are the queue, and their strings.
\<close>

definition outcome ::
  "ptr \<Rightarrow> ptr list \<Rightarrow> (bool \<times> heap) option \<Rightarrow> (bool \<times> bool \<times> string list) option" where
  "outcome head ys r = map_option (\<lambda>(ok, h). (ok, is_queue h head ys, strings h ys)) r"

text \<open>A destination buffer filled with \<open>#\<close>, and the bytes past a string's block.\<close>

definition hashes :: "nat \<Rightarrow> char" where
  "hashes k = CHR ''#''"

definition stray :: "nat \<Rightarrow> char" where
  "stray k = CHR ''?''"

section \<open>Basic facts\<close>

lemma nxt_set_next [simp]: "nxt (set_next h p q) = (nxt h)(p := q)"
  and prv_set_next [simp]: "prv (set_next h p q) = prv h"
  and val_set_next [simp]: "val (set_next h p q) = val h"
  and cstr_set_next [simp]: "cstr (set_next h p q) = cstr h"
  and live_set_next [simp]: "live (set_next h p q) = live h"
  by (simp_all add: set_next_def)

lemma nxt_set_prev [simp]: "nxt (set_prev h p q) = nxt h"
  and prv_set_prev [simp]: "prv (set_prev h p q) = (prv h)(p := q)"
  and val_set_prev [simp]: "val (set_prev h p q) = val h"
  and cstr_set_prev [simp]: "cstr (set_prev h p q) = cstr h"
  and live_set_prev [simp]: "live (set_prev h p q) = live h"
  by (simp_all add: set_prev_def)

lemma nxt_set_value [simp]: "nxt (set_value h p q) = nxt h"
  and prv_set_value [simp]: "prv (set_value h p q) = prv h"
  and val_set_value [simp]: "val (set_value h p q) = (val h)(p := q)"
  and cstr_set_value [simp]: "cstr (set_value h p q) = cstr h"
  and live_set_value [simp]: "live (set_value h p q) = live h"
  by (simp_all add: set_value_def)

lemma nxt_free [simp]: "nxt (free h p) = nxt h"
  and prv_free [simp]: "prv (free h p) = prv h"
  and val_free [simp]: "val (free h p) = val h"
  and cstr_free [simp]: "cstr (free h p) = cstr h"
  and live_free [simp]: "live (free h p) = live h - {p}"
  by (simp_all add: free_def)

lemma nxt_malloc [simp]: "nxt (malloc h p) = nxt h"
  and prv_malloc [simp]: "prv (malloc h p) = prv h"
  and val_malloc [simp]: "val (malloc h p) = val h"
  and cstr_malloc [simp]: "cstr (malloc h p) = cstr h"
  and live_malloc [simp]: "live (malloc h p) = (if p = 0 then live h else insert p (live h))"
  by (simp_all add: malloc_def)

lemma nxt_strdup [simp]: "nxt (strdup h s p) = nxt h"
  and prv_strdup [simp]: "prv (strdup h s p) = prv h"
  and val_strdup [simp]: "val (strdup h s p) = val h"
  and cstr_strdup [simp]: "cstr (strdup h s p) = (if p = 0 then cstr h else (cstr h)(p := s))"
  and live_strdup [simp]: "live (strdup h s p) = (if p = 0 then live h else insert p (live h))"
  by (simp_all add: strdup_def)

lemma nxt_release [simp]: "nxt (q_release_element h e) = nxt h"
  and prv_release [simp]: "prv (q_release_element h e) = prv h"
  and val_release [simp]: "val (q_release_element h e) = val h"
  and cstr_release [simp]: "cstr (q_release_element h e) = cstr h"
  and live_release [simp]: "live (q_release_element h e) = live h - {val h e, e}"
  by (auto simp: q_release_element_def)

lemma val_list_del [simp]: "val (list_del h x) = val h"
  and cstr_list_del [simp]: "cstr (list_del h x) = cstr h"
  and live_list_del [simp]: "live (list_del h x) = live h"
  by (simp_all add: list_del_def Let_def)

lemma val_list_add [simp]: "val (list_add h x y) = val h"
  and cstr_list_add [simp]: "cstr (list_add h x y) = cstr h"
  and live_list_add [simp]: "live (list_add h x y) = live h"
  by (simp_all add: list_add_def Let_def)

lemma val_list_add_tail [simp]: "val (list_add_tail h x y) = val h"
  and cstr_list_add_tail [simp]: "cstr (list_add_tail h x y) = cstr h"
  and live_list_add_tail [simp]: "live (list_add_tail h x y) = live h"
  by (simp_all add: list_add_tail_def Let_def)

subsection \<open>Links\<close>

lemma linked_append:
  "linked n p (us @ a # vs) \<longleftrightarrow> linked n p (us @ [a]) \<and> linked n p (a # vs)"
  by (induction n p us rule: linked.induct) (auto simp: neq_Nil_conv)

lemma linked_next_upd: "x \<notin> set (butlast l) \<Longrightarrow> linked (n(x := y)) p l = linked n p l"
  by (induction n p l rule: linked.induct) auto

lemma linked_prev_upd: "x \<notin> set (tl l) \<Longrightarrow> linked n (p(x := y)) l = linked n p l"
  by (induction n p l rule: linked.induct) auto

lemma linked_mid:
  "linked n p (a # us @ b # c # vs) \<longleftrightarrow>
     linked n p (a # us @ [b]) \<and> n b = c \<and> p c = b \<and> linked n p (c # vs)"
  using linked_append [of n p "a # us" b "c # vs"] by auto

lemma linked_next_frame:
  "x \<noteq> a \<Longrightarrow> x \<notin> set ms \<Longrightarrow>
     linked (n(x := y)) p (a # ms @ [b]) = linked n p (a # ms @ [b])"
  by (rule linked_next_upd) (simp add: butlast_append)

lemma linked_prev_frame:
  "x \<noteq> b \<Longrightarrow> x \<notin> set ms \<Longrightarrow>
     linked n (p(x := y)) (a # ms @ [b]) = linked n p (a # ms @ [b])"
  by (rule linked_prev_upd) simp

lemma is_queue_next:
  assumes "is_queue h head (us @ x # vs)"
  shows "nxt h x = hd (vs @ [head])"
proof -
  from assms have "linked (nxt h) (prv h) ((head # us) @ x # vs @ [head])"
    by (simp add: is_queue_def)
  then have "linked (nxt h) (prv h) (x # vs @ [head])"
    using linked_append [of "nxt h" "prv h" "head # us" x "vs @ [head]"] by blast
  then show ?thesis by (cases vs) auto
qed

lemma is_queue_prev:
  assumes "is_queue h head (us @ x # vs)"
  shows "prv h x = last (head # us)"
proof -
  from assms have "linked (nxt h) (prv h) ((head # us) @ x # vs @ [head])"
    by (simp add: is_queue_def)
  then have l: "linked (nxt h) (prv h) ((head # us) @ [x])"
    using linked_append [of "nxt h" "prv h" "head # us" x "vs @ [head]"] by blast
  show ?thesis
  proof (cases us rule: rev_cases)
    case Nil
    with l show ?thesis by simp
  next
    case (snoc us' u)
    with l show ?thesis by (simp add: linked_mid)
  qed
qed

lemma is_queue_head_next:
  assumes "is_queue h head xs"
  shows "nxt h head = hd (xs @ [head])"
  using assms by (cases xs) (auto simp: is_queue_def)

lemma is_queue_head_prev:
  assumes "is_queue h head xs"
  shows "prv h head = last (head # xs)"
proof (cases xs rule: rev_cases)
  case Nil
  with assms show ?thesis by (simp add: is_queue_def)
next
  case (snoc ys y)
  with assms show ?thesis by (simp add: is_queue_def linked_mid)
qed

lemma list_del_queue:
  assumes "is_queue h head (us @ x # vs)"
  shows "is_queue (list_del h x) head (us @ vs)"
proof (cases us rule: rev_cases)
  case Nil
  show ?thesis
  proof (cases vs)
    case Nil
    with \<open>us = []\<close> assms show ?thesis
      by (auto simp: is_queue_def list_del_def)
  next
    case (Cons n vs')
    with \<open>us = []\<close> assms show ?thesis
      by (auto simp: is_queue_def list_del_def Let_def linked_next_frame linked_prev_frame)
  qed
next
  case (snoc us' p')
  show ?thesis
  proof (cases vs)
    case Nil
    with snoc assms show ?thesis
      by (auto simp: is_queue_def list_del_def Let_def linked_mid linked_next_frame
          linked_prev_frame)
  next
    case (Cons n vs')
    with snoc assms show ?thesis
      by (auto simp: is_queue_def list_del_def Let_def linked_mid linked_next_frame
          linked_prev_frame)
  qed
qed

lemma list_del_first:
  assumes "is_queue h head xs" "xs \<noteq> []"
  shows "is_queue (list_del h (hd xs)) head (tl xs)"
  using assms list_del_queue [of h head "[]" "hd xs" "tl xs"] by simp

lemma list_del_last:
  assumes "is_queue h head xs" "xs \<noteq> []"
  shows "is_queue (list_del h (last xs)) head (butlast xs)"
  using assms list_del_queue [of h head "butlast xs" "last xs" "[]"] by simp

lemma is_queue_nonempty:
  assumes "is_queue h head xs" "xs \<noteq> []"
  shows "\<not> list_empty h head" and "nxt h head = hd xs" and "prv h head = last xs"
proof -
  from assms show n: "nxt h head = hd xs"
    using is_queue_head_next [of h head xs] by simp
  from assms have "hd xs \<noteq> head"
    by (cases xs) (auto simp: is_queue_def)
  with n show "\<not> list_empty h head"
    by (simp add: list_empty_def)
  from assms show "prv h head = last xs"
    using is_queue_head_prev [of h head xs] by simp
qed

subsection \<open>The 32-bit arithmetic of the copy-out\<close>


lemma ucast_strlen_succ: "(ucast (strlen v + 1) :: int32_t) = of_nat (length v) + 1"
proof -
  have down: "is_down (ucast :: size_t \<Rightarrow> int32_t)"
    by (simp add: is_down)
  have "strlen v + 1 = word_of_int (int (length v) + 1)"
    by (simp add: strlen_def)
  then show ?thesis
    using ucast_down_wi [OF down, of "int (length v) + 1"] by simp
qed

lemma sint_length_succ:
  assumes "n < 2 ^ 31 - 1"
  shows "sint (of_nat n + 1 :: int32_t) = int n + 1"
proof -
  have "(of_nat n + 1 :: int32_t) = word_of_int (int n + 1)"
    by simp
  then have "sint (of_nat n + 1 :: int32_t) = signed_take_bit 31 (int n + 1)"
    by (simp only: sint_sbintrunc') simp
  also have "\<dots> = int n + 1"
    using assms by (simp add: signed_take_bit_int_eq_self_iff)
  finally show ?thesis .
qed





lemma copy_loop_negative: "copy_loop v past i (- 1) buf = buf"
  by (subst copy_loop.simps) (simp add: word_sle_eq)

lemma list_add_queue:
  assumes "is_queue h head (us @ vs)" "node \<noteq> 0" "node \<notin> set (head # us @ vs)"
  shows "is_queue (list_add h node (last (head # us))) head (us @ node # vs)"
proof (cases us rule: rev_cases)
  case Nil
  show ?thesis
  proof (cases vs)
    case Nil
    with \<open>us = []\<close> assms show ?thesis
      by (auto simp: is_queue_def list_add_def)
  next
    case (Cons n vs')
    with \<open>us = []\<close> assms show ?thesis
      by (auto simp: is_queue_def list_add_def Let_def linked_next_frame linked_prev_frame)
  qed
next
  case (snoc us' p')
  show ?thesis
  proof (cases vs)
    case Nil
    with snoc assms show ?thesis
      by (auto simp: is_queue_def list_add_def Let_def linked_mid linked_next_frame
          linked_prev_frame)
  next
    case (Cons n vs')
    with snoc assms show ?thesis
      by (auto simp: is_queue_def list_add_def Let_def linked_mid linked_next_frame
          linked_prev_frame)
  qed
qed

lemma list_add_tail_queue:
  assumes "is_queue h head xs" "node \<noteq> 0" "node \<notin> set (head # xs)"
  shows "is_queue (list_add_tail h node head) head (xs @ [node])"
proof (cases xs rule: rev_cases)
  case Nil
  with assms show ?thesis
    by (auto simp: is_queue_def list_add_tail_def)
next
  case (snoc ys y)
  with assms show ?thesis
    by (auto simp: is_queue_def list_add_tail_def Let_def linked_mid linked_next_frame
        linked_prev_frame)
qed


lemma strings_frame:
  assumes "\<And>x. x \<in> set xs \<Longrightarrow> cstr h' (val h' x) = cstr h (val h x)"
  shows "strings h' xs = strings h xs"
  using assms by (simp add: strings_def)

lemma q_insert_tail_ok:
  assumes "is_queue h head xs" "pn \<noteq> 0" "ps \<noteq> 0" "pn \<notin> set (head # xs)"
    and "ps \<notin> val h ` set xs"
  shows "fst (q_insert_tail h head s pn ps)"
    and "is_queue (snd (q_insert_tail h head s pn ps)) head (xs @ [pn])"
    and "strings (snd (q_insert_tail h head s pn ps)) (xs @ [pn]) = strings h xs @ [s]"
    and "live (snd (q_insert_tail h head s pn ps)) = insert pn (insert ps (live h))"
    and "val (snd (q_insert_tail h head s pn ps)) = (val h)(pn := ps)"
proof -
  let ?h2 = "set_value (strdup (malloc h pn) s ps) pn ps"
  from assms have hd: "head \<noteq> 0"
    by (simp add: is_queue_def)
  have q2: "is_queue ?h2 head xs"
    using assms(1) by (simp add: is_queue_def)
  have res: "q_insert_tail h head s pn ps = (True, list_add_tail ?h2 pn head)"
    using hd assms(2,3) by (simp add: q_insert_tail_def Let_def)
  show "fst (q_insert_tail h head s pn ps)"
    by (simp add: res)
  show "is_queue (snd (q_insert_tail h head s pn ps)) head (xs @ [pn])"
    unfolding res snd_conv by (rule list_add_tail_queue [OF q2 assms(2,4)])
  show "strings (snd (q_insert_tail h head s pn ps)) (xs @ [pn]) = strings h xs @ [s]"
    using assms(2-5) by (auto simp: res strings_def)
  show "live (snd (q_insert_tail h head s pn ps)) = insert pn (insert ps (live h))"
    using assms(2,3) by (auto simp: res)
  show "val (snd (q_insert_tail h head s pn ps)) = (val h)(pn := ps)"
    by (simp add: res)
qed

lemma enqueue_all_spec:
  assumes "is_queue h head xs"
    and "distinct (map item_node items)" and "distinct (map item_block items)"
    and "\<forall>it \<in> set items. item_node it \<noteq> 0 \<and> item_block it \<noteq> 0 \<and>
           item_node it \<notin> set (head # xs) \<and> item_block it \<notin> val h ` set xs"
  shows "is_queue (enqueue_all h head items) head (xs @ map item_node items) \<and>
     strings (enqueue_all h head items) (xs @ map item_node items)
       = strings h xs @ map item_text items"
  using assms
proof (induction items arbitrary: h xs)
  case Nil
  then show ?case by simp
next
  case (Cons it items)
  obtain s pn ps where it: "it = (s, pn, ps)"
    by (cases it) auto
  let ?h = "snd (q_insert_tail h head s pn ps)"
  from Cons.prems it have fresh: "pn \<noteq> 0" "ps \<noteq> 0" "pn \<notin> set (head # xs)" "ps \<notin> val h ` set xs"
    by auto
  note ins = q_insert_tail_ok [OF Cons.prems(1) fresh, of s]
  have "is_queue (enqueue_all ?h head items) head ((xs @ [pn]) @ map item_node items) \<and>
     strings (enqueue_all ?h head items) ((xs @ [pn]) @ map item_node items)
       = strings ?h (xs @ [pn]) @ map item_text items"
  proof (rule Cons.IH [OF ins(2)])
    show "distinct (map item_node items)" "distinct (map item_block items)"
      using Cons.prems by auto
    show "\<forall>it\<in>set items. item_node it \<noteq> 0 \<and> item_block it \<noteq> 0 \<and>
        item_node it \<notin> set (head # xs @ [pn]) \<and> item_block it \<notin> val ?h ` set (xs @ [pn])"
      using Cons.prems(2-4) fresh it by (auto simp: ins(5) image_iff)
  qed
  then show ?case
    by (simp add: it ins(3))
qed

lemma q_new_queue: "head \<noteq> 0 \<Longrightarrow> is_queue (snd (q_new h head)) head []"
  by (simp add: q_new_def is_queue_def INIT_LIST_HEAD_def Let_def)

lemma queue_of_spec:
  assumes "head \<noteq> 0"
    and "distinct (head # map item_node items)" and "distinct (map item_block items)"
    and "\<forall>it \<in> set items. item_node it \<noteq> 0 \<and> item_block it \<noteq> 0"
  shows "is_queue (queue_of head items) head (map item_node items)"
    and "strings (queue_of head items) (map item_node items) = map item_text items"
  using enqueue_all_spec [OF q_new_queue [OF assms(1), of empty_heap], of items] assms(2-4)
  by (auto simp: queue_of_def strings_def)

lemma ex1: "is_queue (queue_of 0x1000 [(''hello'', 0x2000, 0x3000), (''bye'', 0x2020, 0x3020)]) 0x1000 [0x2000, 0x2020]"
  using queue_of_spec(1) [of "0x1000" "[(''hello'', 0x2000, 0x3000), (''bye'', 0x2020, 0x3020)]"]
  by simp


lemma two_queue_is_queue: "is_queue two_queue 0x1000 [0x2000, 0x2020]"
  using queue_of_spec(1) [of "0x1000" "[(''hello'', 0x2000, 0x3000), (''bye'', 0x2020, 0x3020)]"]
  by (simp add: two_queue_def)

lemma two_queue_strings:
  "cstr two_queue (val two_queue 0x2000) = ''hello''"
  "cstr two_queue (val two_queue 0x2020) = ''bye''"
  using queue_of_spec(2) [of "0x1000" "[(''hello'', 0x2000, 0x3000), (''bye'', 0x2020, 0x3020)]"]
  by (simp_all add: two_queue_def strings_def)

lemma unat_of_char: "unat (of_char c :: intptr_t) = of_char c"
proof -
  have "(of_char c :: intptr_t) = of_nat (of_char c)"
    by (simp add: of_nat_of_char)
  moreover have "(of_char c :: nat) < 2 ^ 64"
    by (rule less_trans [OF nat_of_char_less_256]) simp
  ultimately show ?thesis
    by (simp add: unat_of_nat)
qed

lemma and_mask_char_ones [simp]: "and_mask_char c (- 1) = c"
  by (simp add: and_mask_char_def unat_of_char)

lemma and_mask_char_zero [simp]: "and_mask_char c 0 = CHR 0x00"
  by (simp add: and_mask_char_def char_of_def)

text \<open>
  The copy loop in general: with a non-negative start index it writes the indices
  \<open>0 .. len\<close>, a zero byte at the start index and the string's bytes below it.
  When the term computed from the buffer's address is at least
  \<open>min (bufsize - 1) (strlen + 1)\<close>, both removals copy
  \<open>min (bufsize - 1) strlen\<close> bytes, terminate them and stay inside the buffer.
\<close>

lemma scast_eq_iff: "(scast (a :: int32_t) :: size_t) = scast b \<longleftrightarrow> a = b"
proof
  assume "(scast a :: size_t) = scast b"
  then have "sint (scast a :: size_t) = sint (scast b :: size_t)"
    by simp
  then have "sint a = sint b"
    by (simp add: sint_up_scast is_up)
  then show "a = b"
    by (rule signed_word_eqI)
qed simp

lemma xor_zero_iff: "(a :: size_t) XOR b = 0 \<longleftrightarrow> a = b"
  by (metis bit.xor_self xor.assoc xor.right_neutral)

lemma mask_of_index:
  "(- (of_bool ((scast (len :: int32_t) XOR (scast i0 :: size_t)) \<noteq> 0)) :: intptr_t)
     = (if len = i0 then 0 else - 1)"
  by (simp add: scast_eq_iff xor_zero_iff)

lemma sint_pred: "0 \<le> sint (len :: int32_t) \<Longrightarrow> sint (len - 1) = sint len - 1"
  using sint_lt [of len] by (simp add: sint_word_diff signed_take_bit_int_eq_self_iff)

lemma copy_loop_spec:
  assumes "0 \<le> sint (len :: int32_t)" "sint len \<le> sint (i0 :: int32_t)"
  shows "copy_loop v past (scast i0) len buf
     = (\<lambda>k. if k \<le> nat (sint len)
            then (if k = nat (sint i0) then CHR 0x00 else value_at v past k)
            else buf k)"
  using assms
proof (induction "nat (sint len)" arbitrary: len buf)
  case 0
  then have l: "sint len = 0" "len = 0"
    by (auto intro: signed_word_eqI)
  have z: "(scast i0 :: size_t) = 0 \<longleftrightarrow> i0 = 0" "sint i0 = 0 \<longleftrightarrow> i0 = 0"
    using scast_eq_iff [of i0 0] signed_word_eqI [of i0 0] by auto
  have "copy_loop v past (scast i0) (- 1) b = b" for b
    by (rule copy_loop_negative)
  then show ?case
    using l 0 z
    by (subst copy_loop.simps) (auto simp: word_sle_eq Let_def fun_eq_iff)
next
  case (Suc n)
  then have p: "0 \<le> sint (len - 1)" "sint (len - 1) \<le> sint i0" "n = nat (sint (len - 1))"
    and s: "sint (len - 1) = sint len - 1"
    using sint_pred [of len] by auto
  have ne: "len = i0 \<longleftrightarrow> nat (sint len) = nat (sint i0)"
  proof
    assume "nat (sint len) = nat (sint i0)"
    with Suc.prems have "sint len = sint i0"
      by simp
    then show "len = i0"
      by (rule signed_word_eqI)
  qed simp
  show ?case
    using Suc.prems Suc.hyps(1) [OF p(3,1,2)] s ne
    by (subst copy_loop.simps) (auto simp: word_sle_eq mask_of_index Let_def fun_eq_iff)
qed


lemma sint_of_nat_small:
  assumes "n < 2 ^ 31"
  shows "sint (of_nat n :: int32_t) = int n"
proof -
  have "(of_nat n :: int32_t) = word_of_int (int n)"
    by simp
  then have "sint (of_nat n :: int32_t) = signed_take_bit 31 (int n)"
    by (simp only: sint_sbintrunc') simp
  also have "\<dots> = int n"
    using assms by (simp add: signed_take_bit_int_eq_self_iff)
  finally show ?thesis .
qed

lemma min_c_small:
  assumes "0 \<le> sint a" "0 \<le> sint b"
  shows "min_c a b = (if sint b < sint a then b else a)"
proof -
  have "sint (a - b) = sint a - sint b"
    using assms sint_lt [of a] sint_lt [of b]
    by (simp add: sint_word_diff signed_take_bit_int_eq_self_iff)
  then show ?thesis
    by (simp add: min_c_def word_sless_alt)
qed

lemma ucast_bufsize_pred:
  assumes "1 \<le> unat (bufsize :: size_t)"
  shows "(ucast (bufsize - 1) :: int32_t) = of_nat (unat bufsize - 1)"
proof -
  have down: "is_down (ucast :: size_t \<Rightarrow> int32_t)"
    by (simp add: is_down)
  have "unat (bufsize - 1) = unat bufsize - 1"
    using assms by (simp add: unat_sub word_le_nat_alt)
  then have "bufsize - 1 = of_nat (unat bufsize - 1)"
    by (metis of_nat_unat ucast_id)
  then have "bufsize - 1 = word_of_int (int (unat bufsize - 1))"
    by simp
  then show ?thesis
    using ucast_down_wi [OF down, of "int (unat bufsize - 1)"] by simp
qed

lemma copy_length_ordinary:
  assumes "1 \<le> unat (bufsize :: size_t)" "unat bufsize \<le> 2 ^ 31" "length v < 2 ^ 31 - 1"
    and "int (min (unat bufsize - 1) (length v + 1)) \<le> sint c"
  shows "min_c (min_c (ucast (bufsize - 1)) (ucast (strlen v + 1))) c
     = of_nat (min (unat bufsize - 1) (length v + 1))"
proof -
  let ?a = "of_nat (unat bufsize - 1) :: int32_t"
  let ?b = "of_nat (length v) + 1 :: int32_t"
  have a: "sint ?a = int (unat bufsize - 1)"
    using assms(1,2) by (intro sint_of_nat_small) simp
  have b: "sint ?b = int (length v) + 1"
    by (rule sint_length_succ [OF assms(3)])
  have b': "?b = of_nat (length v + 1)"
    by simp
  have inner: "min_c ?a ?b = of_nat (min (unat bufsize - 1) (length v + 1))"
    using a b by (subst min_c_small) (auto simp: min_def b' simp del: of_nat_add of_nat_Suc)
  have m: "sint (of_nat (min (unat bufsize - 1) (length v + 1)) :: int32_t)
      = int (min (unat bufsize - 1) (length v + 1))"
    using assms(1-3) by (intro sint_of_nat_small) (simp add: min_def)
  show ?thesis
    unfolding ucast_bufsize_pred [OF assms(1)] ucast_strlen_succ inner
    using m assms(4) by (subst min_c_small) auto
qed

lemma copy_out_ordinary:
  assumes "1 \<le> unat (bufsize :: size_t)" "unat bufsize \<le> 2 ^ 31" "length v < 2 ^ 31 - 1"
    and "int (min (unat bufsize - 1) (length v + 1)) \<le> sint c"
    and "len = min_c (min_c (ucast (bufsize - 1)) (ucast (strlen v + 1))) c"
    and "b = copy_loop v past (scast len) len buf"
  shows "\<forall>k < min (unat bufsize - 1) (length v). b k = v ! k"
    and "b (min (unat bufsize - 1) (length v)) = CHR 0x00"
    and "\<forall>k \<ge> unat bufsize. b k = buf k"
proof -
  let ?m = "min (unat bufsize - 1) (length v + 1)"
  have len: "len = of_nat ?m"
    using copy_length_ordinary [OF assms(1-4)] assms(5) by simp
  have m: "sint len = int ?m"
    unfolding len using assms(1-3) by (intro sint_of_nat_small) (simp add: min_def)
  have n: "nat (sint len) = ?m"
    by (simp only: m nat_int)
  have "b = (\<lambda>k. if k \<le> ?m then (if k = ?m then CHR 0x00 else value_at v past k) else buf k)"
    using copy_loop_spec [of len len v past buf] m unfolding n assms(6) by simp
  then show "\<forall>k < min (unat bufsize - 1) (length v). b k = v ! k"
    and "b (min (unat bufsize - 1) (length v)) = CHR 0x00"
    and "\<forall>k \<ge> unat bufsize. b k = buf k"
    using assms(1) by (auto simp: value_at_def min_def)
qed


lemma q_remove_head_ordinary:
  assumes "is_queue h head xs" "xs \<noteq> []"
    and "1 \<le> unat bufsize" "unat bufsize \<le> 2 ^ 31"
    and "length (cstr h (val h (hd xs))) < 2 ^ 31 - 1"
    and "int (min (unat bufsize - 1) (length (cstr h (val h (hd xs))) + 1))
           \<le> sint (abs_branchless (ucast sp) - 1)"
  shows "\<exists>b. q_remove_head h head sp buf bufsize past = Some (hd xs, list_del h (hd xs), b) \<and>
     (\<forall>k < min (unat bufsize - 1) (length (cstr h (val h (hd xs)))).
        b k = cstr h (val h (hd xs)) ! k) \<and>
     b (min (unat bufsize - 1) (length (cstr h (val h (hd xs))))) = CHR 0x00 \<and>
     (\<forall>k \<ge> unat bufsize. b k = buf k)"
proof -
  from assms(1) have "head \<noteq> 0"
    by (simp add: is_queue_def)
  then have "q_remove_head h head sp buf bufsize past
      = Some (hd xs, list_del h (hd xs),
          copy_loop (cstr h (val h (hd xs))) past
            (scast (min_c (min_c (ucast (bufsize - 1))
               (ucast (strlen (cstr h (val h (hd xs))) + 1))) (abs_branchless (ucast sp) - 1)))
            (min_c (min_c (ucast (bufsize - 1))
               (ucast (strlen (cstr h (val h (hd xs))) + 1))) (abs_branchless (ucast sp) - 1))
            buf)"
    using is_queue_nonempty [OF assms(1,2)] by (simp add: q_remove_head_def Let_def)
  then show ?thesis
    using copy_out_ordinary [OF assms(3-6) refl refl, of past buf] by simp
qed

lemma q_remove_tail_ordinary:
  assumes "is_queue h head xs" "xs \<noteq> []"
    and "1 \<le> unat bufsize" "unat bufsize \<le> 2 ^ 31"
    and "length (cstr h (val h (last xs))) < 2 ^ 31 - 1"
    and "int (min (unat bufsize - 1) (length (cstr h (val h (last xs))) + 1))
           \<le> sint (abs_c (ucast sp) - 1)"
  shows "\<exists>b. q_remove_tail h head sp buf bufsize past = Some (last xs, list_del h (last xs), b) \<and>
     (\<forall>k < min (unat bufsize - 1) (length (cstr h (val h (last xs)))).
        b k = cstr h (val h (last xs)) ! k) \<and>
     b (min (unat bufsize - 1) (length (cstr h (val h (last xs))))) = CHR 0x00 \<and>
     (\<forall>k \<ge> unat bufsize. b k = buf k)"
proof -
  from assms(1) have "head \<noteq> 0"
    by (simp add: is_queue_def)
  then have "q_remove_tail h head sp buf bufsize past
      = Some (last xs, list_del h (last xs),
          copy_loop (cstr h (val h (last xs))) past
            (scast (min_c (min_c (ucast (bufsize - 1))
               (ucast (strlen (cstr h (val h (last xs))) + 1))) (abs_c (ucast sp) - 1)))
            (min_c (min_c (ucast (bufsize - 1))
               (ucast (strlen (cstr h (val h (last xs))) + 1))) (abs_c (ucast sp) - 1))
            buf)"
    using is_queue_nonempty [OF assms(1,2)] by (simp add: q_remove_tail_def Let_def)
  then show ?thesis
    using copy_out_ordinary [OF assms(3-6) refl refl, of past buf] by simp
qed

subsection \<open>Insertion\<close>

lemma enqueue_all_blocks:
  assumes "distinct (map item_node items)"
    and "\<forall>it \<in> set items. item_node it \<noteq> 0 \<and> item_block it \<noteq> 0 \<and> item_node it \<notin> set xs"
    and "head \<noteq> 0"
  shows "map (val (enqueue_all h head items)) (xs @ map item_node items)
       = map (val h) xs @ map item_block items \<and>
     live (enqueue_all h head items)
       = live h \<union> set (map item_node items) \<union> set (map item_block items)"
  using assms
proof (induction items arbitrary: h xs)
  case Nil
  then show ?case by simp
next
  case (Cons it items)
  obtain s pn ps where it: "it = (s, pn, ps)"
    by (cases it) auto
  let ?h = "snd (q_insert_tail h head s pn ps)"
  from Cons.prems it have fresh: "pn \<noteq> 0" "ps \<noteq> 0" "pn \<notin> set xs"
    by auto
  have v: "val ?h = (val h)(pn := ps)" and l: "live ?h = insert pn (insert ps (live h))"
    using fresh \<open>head \<noteq> 0\<close> by (auto simp: q_insert_tail_def Let_def)
  have "map (val (enqueue_all ?h head items)) ((xs @ [pn]) @ map item_node items)
       = map (val ?h) (xs @ [pn]) @ map item_block items \<and>
     live (enqueue_all ?h head items)
       = live ?h \<union> set (map item_node items) \<union> set (map item_block items)"
    by (rule Cons.IH) (use Cons.prems it in auto)
  then show ?case
    using fresh by (auto simp: it v l)
qed

lemma queue_of_blocks:
  assumes "head \<noteq> 0"
    and "distinct (map item_node items)"
    and "\<forall>it \<in> set items. item_node it \<noteq> 0 \<and> item_block it \<noteq> 0"
  shows "map (val (queue_of head items)) (map item_node items) = map item_block items"
    and "live (queue_of head items)
       = insert head (set (map item_node items) \<union> set (map item_block items))"
  using enqueue_all_blocks [of items "[]" head "snd (q_new empty_heap head)"] assms
  by (auto simp: queue_of_def q_new_def empty_heap_def INIT_LIST_HEAD_def)

lemma two_queue_blocks:
  "val two_queue 0x2000 = 0x3000" "val two_queue 0x2020 = 0x3020"
  "live two_queue = {0x1000, 0x2000, 0x2020, 0x3000, 0x3020}"
  using queue_of_blocks [of "0x1000" "[(''hello'', 0x2000, 0x3000), (''bye'', 0x2020, 0x3020)]"]
  by (auto simp: two_queue_def)

lemma two_queue_cstr: "cstr two_queue 0x3000 = ''hello''" "cstr two_queue 0x3020 = ''bye''"
  using two_queue_strings by (simp_all add: two_queue_blocks)

lemma q_insert_head_ok:
  assumes "is_queue h head xs" "pn \<noteq> 0" "ps \<noteq> 0" "pn \<notin> set (head # xs)"
    and "ps \<notin> val h ` set xs"
  shows "fst (q_insert_head h head s pn ps)"
    and "is_queue (snd (q_insert_head h head s pn ps)) head (pn # xs)"
    and "strings (snd (q_insert_head h head s pn ps)) (pn # xs) = s # strings h xs"
    and "live (snd (q_insert_head h head s pn ps)) = insert pn (insert ps (live h))"
    and "val (snd (q_insert_head h head s pn ps)) = (val h)(pn := ps)"
proof -
  let ?h2 = "set_value (strdup (malloc h pn) s ps) pn ps"
  from assms have hd: "head \<noteq> 0"
    by (simp add: is_queue_def)
  have q2: "is_queue ?h2 head ([] @ xs)"
    using assms(1) by (simp add: is_queue_def)
  have res: "q_insert_head h head s pn ps = (True, list_add ?h2 pn head)"
    using hd assms(2,3) by (simp add: q_insert_head_def Let_def)
  show "fst (q_insert_head h head s pn ps)"
    by (simp add: res)
  show "is_queue (snd (q_insert_head h head s pn ps)) head (pn # xs)"
    unfolding res snd_conv using list_add_queue [OF q2 assms(2)] assms(4) by simp
  show "strings (snd (q_insert_head h head s pn ps)) (pn # xs) = s # strings h xs"
    using assms(2-5) by (auto simp: res strings_def)
  show "live (snd (q_insert_head h head s pn ps)) = insert pn (insert ps (live h))"
    using assms(2,3) by (auto simp: res)
  show "val (snd (q_insert_head h head s pn ps)) = (val h)(pn := ps)"
    by (simp add: res)
qed

lemma q_insert_no_string:
  assumes "is_queue h head xs" "pn \<noteq> 0" "pn \<notin> set (head # xs)" "pn \<notin> live h"
  shows "q_insert_head h head s pn 0 = (False, h\<lparr>val := (val h)(pn := 0)\<rparr>)"
    and "q_insert_tail h head s pn 0 = (False, h\<lparr>val := (val h)(pn := 0)\<rparr>)"
    and "is_queue (h\<lparr>val := (val h)(pn := 0)\<rparr>) head xs"
    and "strings (h\<lparr>val := (val h)(pn := 0)\<rparr>) xs = strings h xs"
proof -
  from assms have hd: "head \<noteq> 0"
    by (simp add: is_queue_def)
  have eq: "free (set_value (strdup (malloc h pn) s 0) pn 0) pn = h\<lparr>val := (val h)(pn := 0)\<rparr>"
    using assms(2,4) by (simp add: free_def set_value_def strdup_def malloc_def)
  show "q_insert_head h head s pn 0 = (False, h\<lparr>val := (val h)(pn := 0)\<rparr>)"
    using hd assms(2) eq by (simp add: q_insert_head_def Let_def)
  show "q_insert_tail h head s pn 0 = (False, h\<lparr>val := (val h)(pn := 0)\<rparr>)"
    using hd assms(2) eq by (simp add: q_insert_tail_def Let_def)
  show "is_queue (h\<lparr>val := (val h)(pn := 0)\<rparr>) head xs"
    using assms(1) by (simp add: is_queue_def)
  show "strings (h\<lparr>val := (val h)(pn := 0)\<rparr>) xs = strings h xs"
    using assms(3) by (auto simp: strings_def)
qed

subsection \<open>The middle element\<close>

lemma is_queue_nth:
  assumes "is_queue h head xs" "i < length xs"
  shows "nxt h (xs ! i) = (xs @ [head]) ! Suc i" and "prv h (xs ! i) = (head # xs) ! i"
proof -
  have split: "xs = take i xs @ xs ! i # drop (Suc i) xs"
    using assms(2) by (simp add: id_take_nth_drop)
  have q: "is_queue h head (take i xs @ xs ! i # drop (Suc i) xs)"
    using assms(1) split by simp
  have "nxt h (xs ! i) = hd (drop (Suc i) xs @ [head])"
    by (rule is_queue_next [OF q])
  also have "\<dots> = (xs @ [head]) ! Suc i"
    using assms(2)
    by (cases "Suc i < length xs") (auto simp: hd_append hd_drop_conv_nth nth_append)
  finally show "nxt h (xs ! i) = (xs @ [head]) ! Suc i" .
  have "prv h (xs ! i) = last (head # take i xs)"
    by (rule is_queue_prev [OF q])
  also have "\<dots> = (head # xs) ! i"
  proof (cases i)
    case 0
    then show ?thesis by simp
  next
    case (Suc k)
    then have "take i xs = take k xs @ [xs ! k]"
      using assms(2) by (simp add: take_Suc_conv_app_nth)
    then show ?thesis
      using Suc by simp
  qed
  finally show "prv h (xs ! i) = (head # xs) ! i" .
qed

lemma is_queue_nth_neq:
  assumes "is_queue h head xs" "i < length xs"
  shows "xs ! i \<noteq> 0" and "xs ! i \<noteq> head"
    and "j < length xs \<Longrightarrow> i \<noteq> j \<Longrightarrow> xs ! i \<noteq> xs ! j"
proof -
  from assms(2) have "xs ! i \<in> set xs"
    by simp
  with assms(1) show "xs ! i \<noteq> 0" and "xs ! i \<noteq> head"
    by (auto simp: is_queue_def)
  from assms show "j < length xs \<Longrightarrow> i \<noteq> j \<Longrightarrow> xs ! i \<noteq> xs ! j"
    by (simp add: is_queue_def nth_eq_iff_index_eq)
qed

lemma mid_loop_meets:
  assumes "is_queue h head xs" "i \<le> j" "j < length xs" "i + j = length xs - 1"
  shows "mid_loop h 0 (xs ! i) (xs ! j) = Some (xs ! (length xs div 2))"
  using assms(2-4)
proof (induction "j - i" arbitrary: i j rule: less_induct)
  case less
  have i: "i < length xs"
    using less.prems by simp
  note nx = is_queue_nth(1) [OF assms(1) i]
  note pv = is_queue_nth(2) [OF assms(1) less.prems(2)]
  note ne = is_queue_nth_neq [OF assms(1)]
  consider "i = j" | "j = Suc i" | "Suc i < j"
    using less.prems(1) by linarith
  then show ?case
  proof cases
    case 1
    then have m: "length xs div 2 = i"
      using less.prems by simp
    have "nxt h (xs ! i) \<noteq> xs ! i"
    proof (cases "Suc i < length xs")
      case True
      then show ?thesis
        using nx ne(3) [OF i True] by (simp add: nth_append)
    next
      case False
      then have "nxt h (xs ! i) = head"
        using nx i by (simp add: nth_append)
      then show ?thesis
        using ne(2) [OF i] by simp
    qed
    then show ?thesis
      using 1 m ne(1) [OF i]
      by (subst mid_loop.simps, simp add: Let_def) (subst mid_loop.simps, simp)
  next
    case 2
    then have m: "length xs div 2 = j"
      using less.prems by simp
    have "nxt h (xs ! i) = xs ! j"
      using nx 2 less.prems by (simp add: nth_append)
    moreover have "xs ! i \<noteq> xs ! j"
      using ne(3) [OF i less.prems(2)] 2 by simp
    ultimately show ?thesis
      using m ne(1) [OF less.prems(2)]
      by (subst mid_loop.simps, simp add: Let_def) (subst mid_loop.simps, simp)
  next
    case 3
    have n1: "nxt h (xs ! i) = xs ! Suc i"
      using nx 3 less.prems by (simp add: nth_append)
    have p1: "prv h (xs ! j) = xs ! (j - 1)"
      using pv 3 by (cases j) auto
    have d1: "xs ! i \<noteq> xs ! j"
      using ne(3) [OF i less.prems(2)] 3 by simp
    have d2: "xs ! Suc i \<noteq> xs ! j"
      using ne(3) [of "Suc i" j] 3 less.prems by simp
    have "mid_loop h 0 (xs ! Suc i) (xs ! (j - 1)) = Some (xs ! (length xs div 2))"
      by (rule less.hyps) (use 3 less.prems in auto)
    then show ?thesis
      using n1 p1 d1 d2 by (subst mid_loop.simps) (simp add: Let_def)
  qed
qed

lemma mid_loop_queue:
  assumes "is_queue h head xs" "xs \<noteq> []"
  shows "mid_loop h 0 (nxt h head) (prv h head) = Some (xs ! (length xs div 2))"
proof -
  have "mid_loop h 0 (xs ! 0) (xs ! (length xs - 1)) = Some (xs ! (length xs div 2))"
    by (rule mid_loop_meets [OF assms(1)]) (use assms(2) in auto)
  then show ?thesis
    using is_queue_nonempty(2,3) [OF assms] assms(2) by (simp add: hd_conv_nth last_conv_nth)
qed

lemma strings_append [simp]: "strings h (xs @ ys) = strings h xs @ strings h ys"
  by (simp add: strings_def)

lemma strings_take: "strings h (take n xs) = take n (strings h xs)"
  and strings_drop: "strings h (drop n xs) = drop n (strings h xs)"
  by (simp_all add: strings_def take_map drop_map)

lemma strings_release [simp]: "strings (q_release_element h e) xs = strings h xs"
  and strings_list_del [simp]: "strings (list_del h x) xs = strings h xs"
  by (simp_all add: strings_def)

lemma is_queue_release [simp]: "is_queue (q_release_element h e) head xs = is_queue h head xs"
  by (simp add: is_queue_def)

lemma q_delete_mid_spec:
  assumes "is_queue h head xs" "xs \<noteq> []"
  defines "m \<equiv> length xs div 2"
  defines "h' \<equiv> q_release_element (list_del h (xs ! m)) (xs ! m)"
  shows "q_delete_mid h head = Some (True, h')"
    and "is_queue h' head (take m xs @ drop (Suc m) xs)"
    and "strings h' (take m xs @ drop (Suc m) xs) = take m (strings h xs) @ drop (Suc m) (strings h xs)"
    and "live h' = live h - {val h (xs ! m), xs ! m}"
proof -
  from assms(1) have "head \<noteq> 0"
    by (simp add: is_queue_def)
  then show "q_delete_mid h head = Some (True, h')"
    using is_queue_nonempty(1) [OF assms(1,2)] mid_loop_queue [OF assms(1,2)]
    by (simp add: q_delete_mid_def h'_def m_def)
  have m: "m < length xs"
    using assms(2) by (simp add: m_def)
  then have "is_queue h head (take m xs @ xs ! m # drop (Suc m) xs)"
    using assms(1) by (simp add: id_take_nth_drop [symmetric])
  then show "is_queue h' head (take m xs @ drop (Suc m) xs)"
    unfolding h'_def by (simp add: list_del_queue)
  show "strings h' (take m xs @ drop (Suc m) xs) = take m (strings h xs) @ drop (Suc m) (strings h xs)"
    by (simp add: h'_def strings_take strings_drop)
  show "live h' = live h - {val h (xs ! m), xs ! m}"
    by (simp add: h'_def)
qed


subsection \<open>Swapping pairs\<close>

lemma length_swap_pairs [simp]: "length (swap_pairs xs) = length xs"
  by (induction xs rule: swap_pairs.induct) auto

lemma map_swap_pairs: "map f (swap_pairs xs) = swap_pairs (map f xs)"
  by (induction xs rule: swap_pairs.induct) auto

lemma set_swap_pairs [simp]: "set (swap_pairs xs) = set xs"
  by (induction xs rule: swap_pairs.induct) auto

lemma swap_pairs_nth:
  "Suc (2 * i) < length xs \<Longrightarrow>
     swap_pairs xs ! (2 * i) = xs ! Suc (2 * i) \<and> swap_pairs xs ! Suc (2 * i) = xs ! (2 * i)"
proof (induction xs arbitrary: i rule: swap_pairs.induct)
  case (1 a b rest)
  show ?case
  proof (cases i)
    case 0
    then show ?thesis by simp
  next
    case (Suc k)
    with 1 show ?thesis by simp
  qed
qed auto

lemma swap_pairs_Nil [simp]: "swap_pairs xs = [] \<longleftrightarrow> xs = []"
  by (cases xs rule: swap_pairs.cases) auto

lemma swap_pairs_odd_last: "odd (length xs) \<Longrightarrow> last (swap_pairs xs) = last xs"
  by (induction xs rule: swap_pairs.induct) auto

lemma swap_loop_spec:
  assumes "is_queue h head (pre @ ys)"
  shows "\<exists>h'. swap_loop head h (hd (ys @ [head])) (nxt h (hd (ys @ [head]))) = Some h' \<and>
     is_queue h' head (pre @ swap_pairs ys) \<and>
     val h' = val h \<and> cstr h' = cstr h \<and> live h' = live h"
  using assms
proof (induction ys arbitrary: h pre rule: swap_pairs.induct)
  case (1 a b rest)
  let ?h1 = "list_del h a"
  let ?h2 = "list_add ?h1 a b"
  from "1.prems" have q: "is_queue h head (pre @ a # b # rest)"
    by simp
  from q have a: "a \<noteq> head" "a \<noteq> 0" "a \<notin> set (head # (pre @ [b]) @ rest)" and b: "b \<noteq> head"
    by (auto simp: is_queue_def)
  have nb: "nxt h a = b"
    using is_queue_next [OF q] by simp
  have q1: "is_queue ?h1 head ((pre @ [b]) @ rest)"
    using list_del_queue [OF q] by simp
  have q2: "is_queue ?h2 head ((pre @ [b, a]) @ rest)"
    using list_add_queue [OF q1 a(2,3)] by simp
  have n2: "nxt ?h2 a = hd (rest @ [head])"
    using is_queue_next [of ?h2 head "pre @ [b]" a rest] q2 by simp
  from "1.IH" [OF q2] obtain h' where
    h': "swap_loop head ?h2 (hd (rest @ [head])) (nxt ?h2 (hd (rest @ [head]))) = Some h'"
      "is_queue h' head ((pre @ [b, a]) @ swap_pairs rest)"
      "val h' = val ?h2" "cstr h' = cstr ?h2" "live h' = live ?h2"
    by blast
  have "swap_loop head h a (nxt h a) = Some h'"
    using a(1) b nb n2 h'(1) by (subst swap_loop.simps) (simp add: Let_def)
  with h'(2-5) show ?case
    by simp
next
  case (2 a)
  then have "nxt h a = head" "a \<noteq> head"
    using is_queue_next [of h head pre a "[]"] by (auto simp: is_queue_def)
  with 2 show ?case
    by (subst swap_loop.simps) simp
next
  case 3
  then show ?case
    by (subst swap_loop.simps) simp
qed

lemma q_swap_spec:
  assumes "is_queue h head xs"
  shows "\<exists>h'. q_swap h head = Some h' \<and> is_queue h' head (swap_pairs xs) \<and>
     val h' = val h \<and> cstr h' = cstr h \<and> live h' = live h"
proof -
  from assms have "head \<noteq> 0"
    by (simp add: is_queue_def)
  then show ?thesis
    using swap_loop_spec [of h head "[]" xs] assms is_queue_head_next [OF assms]
    by (simp add: q_swap_def)
qed


subsection \<open>Reversing\<close>

lemma linked_rev: "linked n p (rev l) = linked p n l"
proof (induction n p l rule: linked.induct)
  case (1 n p a b cs)
  have "linked n p (rev (b # cs) @ [a]) \<longleftrightarrow> linked n p (rev cs @ [b]) \<and> n b = a \<and> p a = b"
    using linked_append [of n p "rev cs" b "[a]"] by auto
  with 1 show ?case by auto
qed auto

lemma linked_cong:
  "(\<And>x. x \<in> set l \<Longrightarrow> n x = n' x \<and> p x = p' x) \<Longrightarrow> linked n p l = linked n' p' l"
  by (induction n p l rule: linked.induct) auto

lemma reverse_loop_spec:
  assumes "distinct ys" "head \<notin> set ys"
    and "\<And>i. i < length ys \<Longrightarrow> nxt h (ys ! i) = (ys @ [head]) ! Suc i"
  shows "\<exists>h'. reverse_loop head h (hd (ys @ [head])) (nxt h (hd (ys @ [head])))
        = Some (h', head, nxt h head) \<and>
     nxt h' = (\<lambda>p. if p \<in> set ys then prv h p else nxt h p) \<and>
     prv h' = (\<lambda>p. if p \<in> set ys then nxt h p else prv h p) \<and>
     val h' = val h \<and> cstr h' = cstr h \<and> live h' = live h"
  using assms
proof (induction ys arbitrary: h)
  case Nil
  show ?case
    by (subst reverse_loop.simps) simp
next
  case (Cons y ys)
  let ?h2 = "set_prev (set_next h y (prv h y)) y (nxt h y)"
  let ?safe = "hd (ys @ [head])"
  have y: "y \<noteq> head" "y \<notin> set ys" "?safe \<noteq> y"
    using Cons.prems(1,2) by (auto simp: hd_append)
  have safe: "nxt h y = ?safe"
    using Cons.prems(3) [of 0] by (cases ys) auto
  have chain: "nxt ?h2 (ys ! i) = (ys @ [head]) ! Suc i" if "i < length ys" for i
    using Cons.prems(3) [of "Suc i"] that y(2) by (auto simp: nth_mem)
  from Cons.IH [of ?h2, OF _ _ chain] Cons.prems(1,2) obtain h' where
    h': "reverse_loop head ?h2 ?safe (nxt ?h2 ?safe) = Some (h', head, nxt ?h2 head)"
      "nxt h' = (\<lambda>p. if p \<in> set ys then prv ?h2 p else nxt ?h2 p)"
      "prv h' = (\<lambda>p. if p \<in> set ys then nxt ?h2 p else prv ?h2 p)"
      "val h' = val ?h2" "cstr h' = cstr ?h2" "live h' = live ?h2"
    by auto
  have "reverse_loop head h y (nxt h y) = Some (h', head, nxt h head)"
    using y h'(1) safe by (subst reverse_loop.simps) (simp add: Let_def)
  moreover have "nxt h' = (\<lambda>p. if p \<in> set (y # ys) then prv h p else nxt h p)"
    "prv h' = (\<lambda>p. if p \<in> set (y # ys) then nxt h p else prv h p)"
    using y(2) by (auto simp: h'(2,3) fun_eq_iff)
  ultimately show ?case
    using h'(4-6) by simp
qed

lemma q_reverse_fields:
  assumes "is_queue h head xs"
  shows "\<exists>h'. q_reverse h head = Some h' \<and>
     nxt h' = (\<lambda>p. if p \<in> set (head # xs) then prv h p else nxt h p) \<and>
     prv h' = (\<lambda>p. if p \<in> set (head # xs) then nxt h p else prv h p) \<and>
     val h' = val h \<and> cstr h' = cstr h \<and> live h' = live h"
proof -
  from assms have hd: "head \<noteq> 0" "head \<notin> set xs" "distinct xs"
    by (auto simp: is_queue_def)
  from reverse_loop_spec [OF hd(3,2) is_queue_nth(1) [OF assms]] obtain h1 where
    h1: "reverse_loop head h (hd (xs @ [head])) (nxt h (hd (xs @ [head])))
        = Some (h1, head, nxt h head)"
      "nxt h1 = (\<lambda>p. if p \<in> set xs then prv h p else nxt h p)"
      "prv h1 = (\<lambda>p. if p \<in> set xs then nxt h p else prv h p)"
      "val h1 = val h" "cstr h1 = cstr h" "live h1 = live h"
    by blast
  let ?h' = "set_prev (set_next h1 head (prv h1 head)) head (nxt h head)"
  have "q_reverse h head = Some ?h'"
    using hd(1) h1(1) is_queue_head_next [OF assms] by (simp add: q_reverse_def)
  moreover have "nxt ?h' = (\<lambda>p. if p \<in> set (head # xs) then prv h p else nxt h p)"
    "prv ?h' = (\<lambda>p. if p \<in> set (head # xs) then nxt h p else prv h p)"
    using hd(2) by (auto simp: h1(2,3) fun_eq_iff)
  ultimately show ?thesis
    using h1(4-6) by simp
qed

lemma q_reverse_spec:
  assumes "is_queue h head xs"
  shows "\<exists>h'. q_reverse h head = Some h' \<and> is_queue h' head (rev xs) \<and>
     val h' = val h \<and> cstr h' = cstr h \<and> live h' = live h \<and>
     q_reverse h' head = Some h"
proof -
  from q_reverse_fields [OF assms] obtain h' where
    h': "q_reverse h head = Some h'"
      "nxt h' = (\<lambda>p. if p \<in> set (head # xs) then prv h p else nxt h p)"
      "prv h' = (\<lambda>p. if p \<in> set (head # xs) then nxt h p else prv h p)"
      "val h' = val h" "cstr h' = cstr h" "live h' = live h"
    by blast
  have "linked (nxt h') (prv h') (head # rev xs @ [head])
      = linked (prv h) (nxt h) (rev (head # xs @ [head]))"
    by (simp add: h'(2,3)) (rule linked_cong, auto)
  also have "\<dots> = linked (nxt h) (prv h) (head # xs @ [head])"
    by (rule linked_rev)
  finally have q': "is_queue h' head (rev xs)"
    using assms by (simp add: is_queue_def)
  from q_reverse_fields [OF q'] obtain h'' where
    h'': "q_reverse h' head = Some h''"
      "nxt h'' = (\<lambda>p. if p \<in> set (head # rev xs) then prv h' p else nxt h' p)"
      "prv h'' = (\<lambda>p. if p \<in> set (head # rev xs) then nxt h' p else prv h' p)"
      "val h'' = val h'" "cstr h'' = cstr h'" "live h'' = live h'"
    by blast
  have "h'' = h"
    by (rule heap.equality) (auto simp: h'' h' fun_eq_iff)
  with h' h''(1) q' show ?thesis
    by simp
qed

subsection \<open>Deleting duplicates\<close>

lemma strcmp_eq_0 [simp]: "strcmp a b = 0 \<longleftrightarrow> a = b"
  by (induction a b rule: strcmp.induct) auto

lemma set_dup_kept: "set (dup_kept k d xs) \<subseteq> set xs"
  by (induction k d xs rule: dup_kept.induct) auto

lemma del_if_match_fields [simp]:
  "val (del_if_match h dp x) = val h" "cstr (del_if_match h dp x) = cstr h"
  by (simp_all add: del_if_match_def)

lemma del_if_match_null [simp]: "del_if_match h 0 x = h"
  by (simp add: del_if_match_def)

lemma dup_loop_spec:
  assumes "is_queue h head (pre @ node # rest)"
    and "\<forall>x \<in> set (node # rest). val h x \<noteq> 0 \<and> val h x AND 1 = 0"
  shows "\<exists>h1 dp1 node1. dup_loop head h dp node (nxt h node) = Some (h1, dp1, node1) \<and>
     is_queue (del_if_match h1 dp1 node1) head
       (pre @ dup_kept (\<lambda>x. cstr h (val h x)) (dp \<noteq> 0 \<and> cstr h dp = cstr h (val h node))
          (node # rest)) \<and>
     val h1 = val h \<and> cstr h1 = cstr h"
  using assms
proof (induction rest arbitrary: h pre node dp)
  case Nil
  have "nxt h node = head"
    using is_queue_next [OF Nil.prems(1)] by simp
  then have "dup_loop head h dp node (nxt h node) = Some (h, dp, node)"
    by (subst dup_loop.simps) simp
  moreover have "is_queue (list_del h node) head pre"
    using list_del_queue [OF Nil.prems(1)] by simp
  ultimately show ?case
    using Nil.prems(1) by (simp add: del_if_match_def)
next
  case (Cons r rest)
  let ?k = "\<lambda>x. cstr h (val h x)"
  let ?dp1 = "val h r AND dup_mask h dp node r"
  let ?h1 = "del_if_match h ?dp1 node"
  have r: "nxt h node = r" "r \<noteq> head"
    using is_queue_next [OF Cons.prems(1)] Cons.prems(1) by (auto simp: is_queue_def)
  have vr: "val h r \<noteq> 0" "val h r AND 1 = 0"
    using Cons.prems(2) by auto
  have step: "dup_loop head h dp node (nxt h node) = dup_loop head ?h1 ?dp1 r (nxt ?h1 r)"
    using r by (subst dup_loop.simps) (simp add: Let_def)
  show ?case
  proof (cases "?k node = ?k r")
    case True
    then have dp1: "?dp1 = val h r"
      by (simp add: dup_mask_def)
    then have h1: "?h1 = q_release_element (list_del h node) node"
      using vr True by (simp add: del_if_match_def)
    have q1: "is_queue ?h1 head (pre @ r # rest)"
      using list_del_queue [OF Cons.prems(1)] by (simp add: h1)
    have ev: "\<forall>x \<in> set (r # rest). val ?h1 x \<noteq> 0 \<and> val ?h1 x AND 1 = 0"
      using Cons.prems(2) by simp
    from Cons.IH [OF q1 ev, of ?dp1] obtain h2 dp2 node2 where
      "dup_loop head ?h1 ?dp1 r (nxt ?h1 r) = Some (h2, dp2, node2)"
      "is_queue (del_if_match h2 dp2 node2) head
         (pre @ dup_kept (\<lambda>x. cstr ?h1 (val ?h1 x))
            (?dp1 \<noteq> 0 \<and> cstr ?h1 ?dp1 = cstr ?h1 (val ?h1 r)) (r # rest))"
      "val h2 = val ?h1" "cstr h2 = cstr ?h1"
      by blast
    then show ?thesis
      using True vr by (simp add: step dp1)
  next
    case False
    have "dup_mask h dp node r = 0 \<or> dup_mask h dp node r = 1"
      using False by (simp add: dup_mask_def)
    then have dp1: "?dp1 = 0"
      using vr(2) by auto
    then have h1: "?h1 = h"
      by (simp add: del_if_match_def)
    have q1: "is_queue h head ((pre @ [node]) @ r # rest)"
      using Cons.prems(1) by simp
    have ev: "\<forall>x \<in> set (r # rest). val h x \<noteq> 0 \<and> val h x AND 1 = 0"
      using Cons.prems(2) by simp
    from Cons.IH [OF q1 ev, of 0] obtain h2 dp2 node2 where
      "dup_loop head h 0 r (nxt h r) = Some (h2, dp2, node2)"
      "is_queue (del_if_match h2 dp2 node2) head
         ((pre @ [node]) @ dup_kept ?k (0 \<noteq> (0 :: ptr) \<and> cstr h 0 = cstr h (val h r)) (r # rest))"
      "val h2 = val h" "cstr h2 = cstr h"
      by blast
    then show ?thesis
      using False by (simp add: step dp1 h1)
  qed
qed

lemma q_delete_dup_spec:
  assumes "is_queue h head xs"
    and "\<forall>x \<in> set xs. val h x \<noteq> 0 \<and> val h x AND 1 = 0"
  shows "\<exists>h'. q_delete_dup h head = Some (True, h') \<and>
     is_queue h' head (dup_kept (\<lambda>x. cstr h (val h x)) False xs) \<and>
     val h' = val h \<and> cstr h' = cstr h"
proof (cases xs)
  case Nil
  with assms(1) have "nxt h head = head" "head \<noteq> 0"
    by (auto simp: is_queue_def)
  then have "q_delete_dup h head = Some (True, h)"
    by (simp add: q_delete_dup_def del_if_match_def) (subst dup_loop.simps, simp add: del_if_match_def)
  with Nil assms(1) show ?thesis
    by simp
next
  case (Cons x rest)
  with assms(1) have n: "nxt h head = x" "head \<noteq> 0"
    using is_queue_head_next [OF assms(1)] by (auto simp: is_queue_def)
  from dup_loop_spec [of h head "[]" x rest 0] assms Cons obtain h1 dp1 node1 where
    "dup_loop head h 0 x (nxt h x) = Some (h1, dp1, node1)"
    "is_queue (del_if_match h1 dp1 node1) head (dup_kept (\<lambda>x. cstr h (val h x)) False (x # rest))"
    "val h1 = val h" "cstr h1 = cstr h"
    by auto
  then show ?thesis
    using n Cons by (simp add: q_delete_dup_def)
qed


lemma linked_unique:
  assumes "linked n p (a # xs @ [head])" "linked n p (a # ys @ [head])"
    and "head \<notin> set xs" "head \<notin> set ys"
  shows "xs = ys"
  using assms
proof (induction xs arbitrary: a ys)
  case Nil
  then show ?case by (cases ys) auto
next
  case (Cons x xs)
  then show ?case by (cases ys) auto
qed

lemma is_queue_unique: "is_queue h head xs \<Longrightarrow> is_queue h head ys \<Longrightarrow> xs = ys"
  using linked_unique [of "nxt h" "prv h" head xs head ys] by (simp add: is_queue_def)

lemma dup_queue_facts:
  "is_queue dup_queue 0x1000 [0x2000, 0x2020, 0x2040, 0x2060, 0x2080]"
  "strings dup_queue [0x2000, 0x2020, 0x2040, 0x2060, 0x2080] = [''a'', ''a'', ''b'', ''c'', ''c'']"
  "map (val dup_queue) [0x2000, 0x2020, 0x2040, 0x2060, 0x2080]
     = [0x3000, 0x3020, 0x3040, 0x3060, 0x3080]"
  using queue_of_spec [of "0x1000" "[(''a'', 0x2000, 0x3000), (''a'', 0x2020, 0x3020),
      (''b'', 0x2040, 0x3040), (''c'', 0x2060, 0x3060), (''c'', 0x2080, 0x3080)]"]
    queue_of_blocks(1) [of "0x1000" "[(''a'', 0x2000, 0x3000), (''a'', 0x2020, 0x3020),
      (''b'', 0x2040, 0x3040), (''c'', 0x2060, 0x3060), (''c'', 0x2080, 0x3080)]"]
  by (simp_all add: dup_queue_def)

lemma dup_queue_cstr:
  "cstr dup_queue 0x3000 = ''a''" "cstr dup_queue 0x3020 = ''a''"
  "cstr dup_queue 0x3040 = ''b''" "cstr dup_queue 0x3060 = ''c''"
  "cstr dup_queue 0x3080 = ''c''"
  using dup_queue_facts(2,3) by (simp_all add: strings_def)

subsection \<open>Sorting\<close>

lemma seg_append: "seg n p (xs @ ys) q \<longleftrightarrow> (\<exists>m. seg n p xs m \<and> seg n m ys q)"
  by (induction xs arbitrary: p) auto

lemma seg_snoc: "seg n p (xs @ [x]) q \<longleftrightarrow> seg n p xs x \<and> n x = q"
  by (simp add: seg_append)

lemma seg_upd: "x \<notin> set xs \<Longrightarrow> seg (n(x := v)) p xs q = seg n p xs q"
  by (induction xs arbitrary: p) auto

lemma seg_cong: "(\<And>x. x \<in> set xs \<Longrightarrow> n' x = n x) \<Longrightarrow> seg n' p xs q = seg n p xs q"
  by (induction xs arbitrary: p) auto

lemma store_seg:
  assumes "tail_inv h sorted_p tail ds" "distinct ds"
    and "store h sorted_p tail t = (h1, s1)"
  shows "seg (nxt h1) s1 ds t" and "load h1 s1 tail = t"
    and "\<And>p. p \<notin> set ds \<Longrightarrow> nxt h1 p = nxt h p"
    and "prv h1 = prv h" "val h1 = val h" "cstr h1 = cstr h" "live h1 = live h"
proof -
  show "seg (nxt h1) s1 ds t"
  proof (cases tail)
    case Sorted
    with assms show ?thesis by (auto simp: tail_inv_def store_def)
  next
    case (Next_of d)
    with assms(1) have ds: "ds = butlast ds @ [d]" "seg (nxt h) sorted_p (butlast ds) d"
      by (auto simp: tail_inv_def)
    then have "d \<notin> set (butlast ds)"
      using assms(2) by (metis distinct_append disjoint_iff list.set_intros(1))
    with ds(2) have "seg ((nxt h)(d := t)) sorted_p (butlast ds @ [d]) t"
      by (simp add: seg_snoc seg_upd)
    with ds(1) Next_of assms(3) show ?thesis
      by (auto simp: store_def)
  qed
  show "load h1 s1 tail = t"
    using assms(3) by (cases tail) (auto simp: store_def load_def)
  show "nxt h1 p = nxt h p" if "p \<notin> set ds" for p
    using assms(1,3) that by (cases tail) (auto simp: store_def tail_inv_def)
  show "prv h1 = prv h" "val h1 = val h" "cstr h1 = cstr h" "live h1 = live h"
    using assms(3) by (cases tail; auto simp: store_def)+
qed


lemma seg_null: "seg n p xs 0 \<Longrightarrow> 0 \<notin> set xs \<Longrightarrow> (p = 0) = (xs = [])"
  by (cases xs) auto

lemma merge_loop_spec:
  assumes "seg (nxt h) a xs 0" "seg (nxt h) b ys 0"
    and "distinct (ds @ xs @ ys)" "0 \<notin> set (ds @ xs @ ys)"
    and "tail_inv h sorted_p tail ds"
    and "\<And>x. k x = cstr h (val h x)"
  shows "\<exists>h' r. merge_loop h sorted_p tail a b = Some (h', r) \<and>
     seg (nxt h') r (ds @ merge_list k xs ys) 0 \<and>
     (\<forall>p. p \<notin> set (ds @ xs @ ys) \<longrightarrow> nxt h' p = nxt h p) \<and>
     prv h' = prv h \<and> val h' = val h \<and> cstr h' = cstr h \<and> live h' = live h"
  using assms
proof (induction k xs ys arbitrary: h sorted_p tail a b ds rule: merge_list.induct)
  case (1 k ys)
  obtain h1 s1 where st: "store h sorted_p tail (a OR b) = (h1, s1)"
    by (cases "store h sorted_p tail (a OR b)") auto
  from "1.prems" have a: "a = 0" and d: "distinct ds"
    by auto
  note ss = store_seg [OF "1.prems"(5) d st]
  have "seg (nxt h1) b ys 0"
    using "1.prems"(2,3) ss(3) by (subst seg_cong [of ys _ "nxt h"]) auto
  then have "seg (nxt h1) s1 (ds @ ys) 0"
    using ss(1) a by (auto simp: seg_append)
  moreover have "merge_loop h sorted_p tail a b = Some (h1, s1)"
    using a st by (subst merge_loop.simps) simp
  ultimately show ?case
    using ss(3-7) by simp
next
  case (2 k x xs)
  obtain h1 s1 where st: "store h sorted_p tail (a OR b) = (h1, s1)"
    by (cases "store h sorted_p tail (a OR b)") auto
  from "2.prems" have b: "b = 0" and d: "distinct ds"
    by auto
  note ss = store_seg [OF "2.prems"(5) d st]
  have "seg (nxt h1) a (x # xs) 0"
    using "2.prems"(1,3) ss(3) by (subst seg_cong [of "x # xs" _ "nxt h"]) auto
  then have "seg (nxt h1) s1 (ds @ x # xs) 0"
    using ss(1) b by (auto simp: seg_append)
  moreover have "merge_loop h sorted_p tail a b = Some (h1, s1)"
    using b st by (subst merge_loop.simps) simp
  ultimately show ?case
    using ss(3-7) by simp
next
  case (3 k x xs y ys)
  let ?first = "strcmp (k x) (k y) \<le> 0"
  let ?t = "if ?first then x else y"
  obtain h1 s1 where st: "store h sorted_p tail ?t = (h1, s1)"
    by (cases "store h sorted_p tail ?t") auto
  from "3.prems" have ab: "a = x" "b = y" "x \<noteq> 0" "y \<noteq> 0" and d: "distinct ds"
    and t: "?t \<notin> set ds"
    by auto
  note ss = store_seg [OF "3.prems"(5) d st]
  have key: "strcmp (cstr h (val h a)) (cstr h (val h b)) \<le> 0 \<longleftrightarrow> ?first"
    using "3.prems"(6) ab by simp
  have inv1: "tail_inv h1 s1 (Next_of ?t) (ds @ [?t])"
    using ss(1) by (simp add: tail_inv_def)
  have k1: "\<And>z. k z = cstr h1 (val h1 z)"
    using "3.prems"(6) ss(5,6) by simp
  have step: "merge_loop h sorted_p tail a b
      = merge_loop h1 s1 (Next_of ?t) (if ?first then nxt h1 x else x)
          (if ?first then y else nxt h1 y)"
  proof (cases ?first)
    case True
    with ab st ss(2) key show ?thesis
      by (subst merge_loop.simps) (simp add: Let_def)
  next
    case False
    with ab st ss(2) key show ?thesis
      by (subst merge_loop.simps) (simp add: Let_def)
  qed
  have sx: "seg (nxt h1) x (x # xs) 0"
    using "3.prems"(1,3) ss(3) ab by (subst seg_cong [of "x # xs" _ "nxt h"]) auto
  have sy: "seg (nxt h1) y (y # ys) 0"
    using "3.prems"(2,3) ss(3) ab by (subst seg_cong [of "y # ys" _ "nxt h"]) auto
  show ?case
  proof (cases ?first)
    case True
    have "\<exists>h' r. merge_loop h1 s1 (Next_of x) (nxt h1 x) y = Some (h', r) \<and>
       seg (nxt h') r ((ds @ [x]) @ merge_list k xs (y # ys)) 0 \<and>
       (\<forall>p. p \<notin> set ((ds @ [x]) @ xs @ y # ys) \<longrightarrow> nxt h' p = nxt h1 p) \<and>
       prv h' = prv h1 \<and> val h' = val h1 \<and> cstr h' = cstr h1 \<and> live h' = live h1"
    proof (rule "3.IH"(1) [OF True])
      show "seg (nxt h1) (nxt h1 x) xs 0" "seg (nxt h1) y (y # ys) 0"
        using sx sy by simp_all
      show "distinct ((ds @ [x]) @ xs @ y # ys)" "0 \<notin> set ((ds @ [x]) @ xs @ y # ys)"
        using "3.prems"(3,4) by auto
      show "tail_inv h1 s1 (Next_of x) (ds @ [x])"
        using inv1 True by simp
      show "\<And>z. k z = cstr h1 (val h1 z)"
        by (rule k1)
    qed
    then show ?thesis
      using True ss(3-7) by (auto simp: step)
  next
    case False
    have "\<exists>h' r. merge_loop h1 s1 (Next_of y) x (nxt h1 y) = Some (h', r) \<and>
       seg (nxt h') r ((ds @ [y]) @ merge_list k (x # xs) ys) 0 \<and>
       (\<forall>p. p \<notin> set ((ds @ [y]) @ (x # xs) @ ys) \<longrightarrow> nxt h' p = nxt h1 p) \<and>
       prv h' = prv h1 \<and> val h' = val h1 \<and> cstr h' = cstr h1 \<and> live h' = live h1"
    proof (rule "3.IH"(2) [OF False])
      show "seg (nxt h1) x (x # xs) 0" "seg (nxt h1) (nxt h1 y) ys 0"
        using sx sy by simp_all
      show "distinct ((ds @ [y]) @ (x # xs) @ ys)" "0 \<notin> set ((ds @ [y]) @ (x # xs) @ ys)"
        using "3.prems"(3,4) by auto
      show "tail_inv h1 s1 (Next_of y) (ds @ [y])"
        using inv1 False by simp
      show "\<And>z. k z = cstr h1 (val h1 z)"
        by (rule k1)
    qed
    then show ?thesis
      using False ss(3-7) by (auto simp: step)
  qed
qed

lemma merge_spec:
  assumes "seg (nxt h) a xs 0" "seg (nxt h) b ys 0"
    and "distinct (xs @ ys)" "0 \<notin> set (xs @ ys)"
  shows "\<exists>h' r. merge h a b = Some (h', r) \<and>
     seg (nxt h') r (merge_list (\<lambda>x. cstr h (val h x)) xs ys) 0 \<and>
     (\<forall>p. p \<notin> set (xs @ ys) \<longrightarrow> nxt h' p = nxt h p) \<and>
     prv h' = prv h \<and> val h' = val h \<and> cstr h' = cstr h \<and> live h' = live h"
  using merge_loop_spec [of h a xs b ys "[]" 0 Sorted "\<lambda>x. cstr h (val h x)"] assms
  by (simp add: merge_def tail_inv_def)
lemma set_merge_list [simp]: "set (merge_list k xs ys) = set xs \<union> set ys"
  by (induction k xs ys rule: merge_list.induct) auto

lemma length_merge_list [simp]: "length (merge_list k xs ys) = length xs + length ys"
  by (induction k xs ys rule: merge_list.induct) auto

lemma distinct_merge_list:
  "distinct (merge_list k xs ys) \<longleftrightarrow> distinct xs \<and> distinct ys \<and> set xs \<inter> set ys = {}"
  by (induction k xs ys rule: merge_list.induct) auto

lemma set_msort [simp]: "set (msort k xs) = set xs"
proof (induction k xs rule: msort.induct)
  case (1 k xs)
  show ?case
  proof (cases "length xs \<le> 1")
    case True
    then show ?thesis by (subst msort.simps) simp
  next
    case False
    then have "set (msort k xs)
        = set (take ((length xs + 1) div 2) xs) \<union> set (drop ((length xs + 1) div 2) xs)"
      using 1 by (subst msort.simps) (simp add: Let_def)
    then show ?thesis
      by (metis append_take_drop_id set_append)
  qed
qed

lemma length_msort [simp]: "length (msort k xs) = length xs"
proof (induction k xs rule: msort.induct)
  case (1 k xs)
  show ?case
  proof (cases "length xs \<le> 1")
    case True
    then show ?thesis by (subst msort.simps) simp
  next
    case False
    then show ?thesis
      using 1 by (subst msort.simps) (simp add: Let_def)
  qed
qed

lemma distinct_msort [simp]: "distinct (msort k xs) = distinct xs"
  by (metis card_distinct distinct_card length_msort set_msort)

lemma seg_nth:
  assumes "seg n p xs q" "i < length xs"
  shows "n (xs ! i) = (xs @ [q]) ! Suc i"
  using assms
proof (induction xs arbitrary: p i)
  case Nil
  then show ?case by simp
next
  case (Cons x xs)
  show ?case
  proof (cases i)
    case 0
    with Cons.prems show ?thesis by (cases xs) auto
  next
    case (Suc j)
    with Cons show ?thesis by auto
  qed
qed

lemma seg_hd: "seg n p xs q \<Longrightarrow> p = hd (xs @ [q])"
  by (cases xs) auto

lemma split_loop_spec:
  assumes "seg (nxt h) p xs 0" "0 \<notin> set xs" "i < length xs" "2 * i + 1 \<le> length xs"
  shows "split_loop h (xs ! i) ((xs @ [0]) ! (2 * i + 1)) = Some (xs ! ((length xs - 1) div 2))"
  using assms(3,4)
proof (induction "length xs - 2 * i" arbitrary: i rule: less_induct)
  case less
  let ?n = "length xs"
  have nz: "(xs @ [0]) ! j \<noteq> 0" if "j < ?n" for j
  proof -
    from that have "xs ! j \<in> set xs"
      by simp
    with assms(2) have "xs ! j \<noteq> 0"
      by metis
    with that show ?thesis
      by (simp add: nth_append)
  qed
  have z: "(xs @ [0]) ! ?n = 0"
    by (simp add: nth_append)
  show ?case
  proof (cases "2 * i + 2 < ?n")
    case True
    have l1: "(xs @ [0]) ! (2 * i + 1) \<noteq> 0"
      using True by (intro nz) simp
    have n1: "nxt h ((xs @ [0]) ! (2 * i + 1)) = (xs @ [0]) ! (2 * i + 2)"
      using seg_nth [OF assms(1), of "2 * i + 1"] True by (simp add: nth_append)
    have l2: "(xs @ [0]) ! (2 * i + 2) \<noteq> 0"
      using True by (intro nz) simp
    have n2: "nxt h ((xs @ [0]) ! (2 * i + 2)) = (xs @ [0]) ! (2 * Suc i + 1)"
      using seg_nth [OF assms(1), of "2 * i + 2"] True by (simp add: nth_append)
    have m1: "nxt h (xs ! i) = xs ! Suc i"
      using seg_nth [OF assms(1), of i] True by (simp add: nth_append)
    have "split_loop h (xs ! Suc i) ((xs @ [0]) ! (2 * Suc i + 1))
        = Some (xs ! ((?n - 1) div 2))"
      by (rule less.hyps) (use True in auto)
    then show ?thesis
      using l1 l2 n1 n2 m1 by (subst split_loop.simps) simp
  next
    case False
    then have cases: "2 * i + 1 = ?n \<or> 2 * i + 2 = ?n"
      using less.prems by linarith
    then have m: "(?n - 1) div 2 = i"
      by auto
    have stop: "(xs @ [0]) ! (2 * i + 1) = 0 \<or> nxt h ((xs @ [0]) ! (2 * i + 1)) = 0"
    proof (cases "2 * i + 1 = ?n")
      case True
      then show ?thesis using z by simp
    next
      case False
      with cases have e: "2 * i + 2 = ?n" by simp
      then have "nxt h (xs ! (2 * i + 1)) = (xs @ [0]) ! ?n"
        using seg_nth [OF assms(1), of "2 * i + 1"] by simp
      then show ?thesis
        using e z by (simp add: nth_append)
    qed
    then show ?thesis
      using m by (subst split_loop.simps) auto
  qed
qed

lemma seg_cut:
  assumes "seg n p (us @ u # vs) q" "distinct (us @ u # vs)"
  shows "seg (n(u := 0)) p (us @ [u]) 0" and "seg (n(u := 0)) (n u) vs q"
proof -
  from assms(1) have a: "seg n p us u" and b: "seg n (n u) vs q"
    by (auto simp: seg_append)
  from a assms(2) show "seg (n(u := 0)) p (us @ [u]) 0"
    by (simp add: seg_snoc seg_upd)
  from b assms(2) show "seg (n(u := 0)) (n u) vs q"
    by (simp add: seg_upd)
qed
lemma merge_sort_spec:
  assumes "seg (nxt h) p xs 0" "distinct xs" "0 \<notin> set xs" "xs \<noteq> []"
  shows "\<exists>h' r. merge_sort h p = Some (h', r) \<and>
     seg (nxt h') r (msort (\<lambda>x. cstr h (val h x)) xs) 0 \<and>
     (\<forall>q. q \<notin> set xs \<longrightarrow> nxt h' q = nxt h q) \<and>
     prv h' = prv h \<and> val h' = val h \<and> cstr h' = cstr h \<and> live h' = live h"
  using assms
proof (induction "length xs" arbitrary: h p xs rule: less_induct)
  case less
  let ?n = "length xs"
  let ?k = "\<lambda>x. cstr h (val h x)"
  from less.prems have p: "p = xs ! 0"
    by (cases xs) auto
  show ?case
  proof (cases "?n = 1")
    case True
    then obtain x where xs: "xs = [x]"
      by (cases xs) auto
    with less.prems have px: "nxt h p = 0" "p = x"
      by auto
    then have "merge_sort h p = Some (h, x)"
      by (subst merge_sort.simps) simp
    then show ?thesis
      using xs px by (subst msort.simps) simp
  next
    case False
    moreover have "?n \<noteq> 0"
      using less.prems(4) by simp
    ultimately have n2: "2 \<le> ?n"
      by linarith
    let ?m' = "(?n - 1) div 2"
    let ?m = "(?n + 1) div 2"
    let ?u = "xs ! ?m'"
    let ?h1 = "set_next h ?u 0"
    have m: "?m = Suc ?m'" "?m' < ?n" "?m < ?n" "0 < ?m"
      using n2 by auto
    have nz: "xs ! i \<noteq> 0" if "i < ?n" for i
      using less.prems(3) nth_mem [OF that] by metis
    have n1: "nxt h p = xs ! 1"
      using seg_nth [OF less.prems(1), of 0] n2 p less.prems(4) by (simp add: nth_append)
    have sp: "split_loop h p (nxt h p) = Some ?u"
      using split_loop_spec [OF less.prems(1,3), of 0] n2 p n1 less.prems(4)
      by (simp add: nth_append)
    have nu: "nxt h ?u = xs ! ?m"
      using seg_nth [OF less.prems(1) m(2)] m by (simp add: nth_append)
    have decomp: "xs = take ?m' xs @ ?u # drop ?m xs"
      using m by (simp add: id_take_nth_drop)
    have tk: "take ?m xs = take ?m' xs @ [?u]"
      using m by (simp add: take_Suc_conv_app_nth)
    have sg: "seg (nxt h) p (take ?m' xs @ ?u # drop ?m xs) 0"
      by (subst decomp [symmetric]) (rule less.prems(1))
    have dg: "distinct (take ?m' xs @ ?u # drop ?m xs)"
      by (subst decomp [symmetric]) (rule less.prems(2))
    note c = seg_cut [OF sg dg]
    have cut: "seg (nxt ?h1) p (take ?m xs) 0" "seg (nxt ?h1) (xs ! ?m) (drop ?m xs) 0"
      using c nu unfolding tk by simp_all
    have d1: "distinct (take ?m xs)" "0 \<notin> set (take ?m xs)" "take ?m xs \<noteq> []"
      and d2: "distinct (drop ?m xs)" "0 \<notin> set (drop ?m xs)" "drop ?m xs \<noteq> []"
      and dj: "set (take ?m xs) \<inter> set (drop ?m xs) = {}"
      using less.prems(2,3) m set_take_disj_set_drop_if_distinct [of xs ?m ?m]
      by (auto dest: in_set_takeD in_set_dropD)
    have un: "set (take ?m xs) \<union> set (drop ?m xs) = set xs"
      by (metis append_take_drop_id set_append)
    have l1: "length (take ?m xs) < ?n" and l2: "length (drop ?m xs) < ?n"
      using n2 by auto
    from less.hyps [OF l1 cut(1) d1] obtain h2 r1 where
      h2: "merge_sort ?h1 p = Some (h2, r1)"
        "seg (nxt h2) r1 (msort (\<lambda>x. cstr ?h1 (val ?h1 x)) (take ?m xs)) 0"
        "\<forall>q. q \<notin> set (take ?m xs) \<longrightarrow> nxt h2 q = nxt ?h1 q"
        "prv h2 = prv ?h1" "val h2 = val ?h1" "cstr h2 = cstr ?h1" "live h2 = live ?h1"
      by blast
    have s2: "seg (nxt h2) (xs ! ?m) (drop ?m xs) 0"
      using cut(2) h2(3) dj by (subst seg_cong [of _ _ "nxt ?h1"]) auto
    from less.hyps [OF l2 s2 d2] obtain h3 r2 where
      h3: "merge_sort h2 (xs ! ?m) = Some (h3, r2)"
        "seg (nxt h3) r2 (msort (\<lambda>x. cstr h2 (val h2 x)) (drop ?m xs)) 0"
        "\<forall>q. q \<notin> set (drop ?m xs) \<longrightarrow> nxt h3 q = nxt h2 q"
        "prv h3 = prv h2" "val h3 = val h2" "cstr h3 = cstr h2" "live h3 = live h2"
      by blast
    have k: "(\<lambda>x. cstr ?h1 (val ?h1 x)) = ?k" "(\<lambda>x. cstr h2 (val h2 x)) = ?k"
      "(\<lambda>x. cstr h3 (val h3 x)) = ?k"
      by (simp_all add: h2 h3)
    have s1: "seg (nxt h3) r1 (msort ?k (take ?m xs)) 0"
      using h2(2) h3(3) dj unfolding k by (subst seg_cong [of _ _ "nxt h2"]) auto
    from merge_spec [OF s1 h3(2) [unfolded k]] d1 d2 dj obtain h4 r where
      h4: "merge h3 r1 r2 = Some (h4, r)"
        "seg (nxt h4) r (merge_list ?k (msort ?k (take ?m xs)) (msort ?k (drop ?m xs))) 0"
        "\<forall>q. q \<notin> set (msort ?k (take ?m xs) @ msort ?k (drop ?m xs)) \<longrightarrow> nxt h4 q = nxt h3 q"
        "prv h4 = prv h3" "val h4 = val h3" "cstr h4 = cstr h3" "live h4 = live h3"
      unfolding k by auto
    have ms: "merge_sort h p = Some (h4, r)"
      using n1 nz [of 1] n2 sp nu h2(1) h3(1) h4(1)
      by (subst merge_sort.simps) (simp add: Let_def)
    have res: "msort ?k xs = merge_list ?k (msort ?k (take ?m xs)) (msort ?k (drop ?m xs))"
      using n2 by (subst msort.simps) (simp add: Let_def)
    have frame: "nxt h4 q = nxt h q" if "q \<notin> set xs" for q
    proof -
      from that un have a: "q \<notin> set (take ?m xs)" "q \<notin> set (drop ?m xs)"
        by auto
      from that have "q \<noteq> ?u"
        using m(2) nth_mem by metis
      with a show ?thesis
        using h4(3) h3(3) h2(3) by simp
    qed
    show ?thesis
      using ms h4(2) frame h4(4-7) h3(4-7) h2(4-7) by (simp add: res)
  qed
qed
lemma relink_loop_spec:
  assumes "seg (nxt h) x (x # rest) 0" "distinct (x # rest)" "0 \<notin> set (x # rest)"
  shows "\<exists>h'. relink_loop h x = Some (h', last (x # rest)) \<and>
     linked (nxt h') (prv h') (x # rest) \<and> nxt h' = nxt h \<and>
     (\<forall>q. q \<notin> set rest \<longrightarrow> prv h' q = prv h q) \<and>
     val h' = val h \<and> cstr h' = cstr h \<and> live h' = live h"
  using assms
proof (induction rest arbitrary: h x)
  case Nil
  then have "relink_loop h x = Some (h, x)"
    by (subst relink_loop.simps) simp
  then show ?case by simp
next
  case (Cons y rest)
  let ?h1 = "set_prev h y x"
  from Cons.prems have y: "nxt h x = y" "y \<noteq> 0" "y \<notin> set rest" "x \<noteq> y"
    by auto
  have "seg (nxt ?h1) y (y # rest) 0" "distinct (y # rest)" "0 \<notin> set (y # rest)"
    using Cons.prems by auto
  from Cons.IH [OF this] obtain h' where
    h': "relink_loop ?h1 y = Some (h', last (y # rest))"
      "linked (nxt h') (prv h') (y # rest)" "nxt h' = nxt ?h1"
      "\<forall>q. q \<notin> set rest \<longrightarrow> prv h' q = prv ?h1 q"
      "val h' = val ?h1" "cstr h' = cstr ?h1" "live h' = live ?h1"
    by blast
  have "relink_loop h x = Some (h', last (x # y # rest))"
    using y h'(1) by (subst relink_loop.simps) (simp add: Let_def)
  moreover have "linked (nxt h') (prv h') (x # y # rest)"
    using h'(2,3,4) y by simp
  ultimately show ?case
    using h'(3-7) by auto
qed

lemma linked_seg: "linked n p (a # xs @ [q]) \<Longrightarrow> seg n (n a) xs q"
  by (induction xs arbitrary: a) auto

lemma q_sort_spec:
  assumes "is_queue h head xs"
  shows "\<exists>h'. q_sort h head = Some h' \<and>
     is_queue h' head (msort (\<lambda>x. cstr h (val h x)) xs) \<and>
     val h' = val h \<and> cstr h' = cstr h \<and> live h' = live h \<and>
     (length xs \<le> 1 \<longrightarrow> h' = h)"
proof (cases "length xs \<le> 1")
  case True
  have "nxt h head = prv h head"
  proof (cases xs)
    case Nil
    with assms show ?thesis by (simp add: is_queue_def)
  next
    case (Cons x rest)
    with True have "xs = [x]" by simp
    with assms show ?thesis by (simp add: is_queue_def)
  qed
  then have "q_sort h head = Some h"
    by (simp add: q_sort_def)
  moreover have "msort (\<lambda>x. cstr h (val h x)) xs = xs"
    using True by (subst msort.simps) simp
  ultimately show ?thesis
    using assms by simp
next
  case False
  let ?k = "\<lambda>x. cstr h (val h x)"
  let ?ys = "msort ?k xs"
  let ?l = "last xs"
  let ?h1 = "set_next h ?l 0"
  from False have ne: "xs \<noteq> []" and n2: "2 \<le> length xs"
    by auto
  from assms have hd: "head \<noteq> 0" "head \<notin> set xs" "distinct xs" "0 \<notin> set xs"
    and lk: "linked (nxt h) (prv h) (head # xs @ [head])"
    by (auto simp: is_queue_def)
  note ends = is_queue_nonempty [OF assms ne]
  have "hd xs \<noteq> last xs"
    using n2 hd(3) ne by (simp add: hd_conv_nth last_conv_nth nth_eq_iff_index_eq)
  then have guard: "nxt h head \<noteq> prv h head"
    using ends by simp
  have lh: "?l \<noteq> head"
    using hd(2) ne last_in_set by metis
  have xs: "xs = butlast xs @ [?l]"
    using ne by simp
  have "distinct (butlast xs @ [?l])"
    using hd(3) xs by metis
  then have dl: "?l \<notin> set (butlast xs)"
    by simp
  have "seg (nxt h) (hd xs) xs head"
    using linked_seg [OF lk] ends(2) by simp
  then have "seg (nxt h) (hd xs) (butlast xs @ [?l]) head"
    using xs by metis
  then have "seg (nxt ?h1) (hd xs) (butlast xs @ [?l]) 0"
    using dl by (simp add: seg_snoc seg_upd)
  then have "seg (nxt ?h1) (hd xs) xs 0"
    using xs by metis
  then have s1: "seg (nxt ?h1) (nxt ?h1 head) xs 0"
    using ends(2) lh by simp
  from merge_sort_spec [OF s1 hd(3,4) ne] obtain h2 tail where
    h2: "merge_sort ?h1 (nxt ?h1 head) = Some (h2, tail)"
      "seg (nxt h2) tail ?ys 0"
      "prv h2 = prv h" "val h2 = val h" "cstr h2 = cstr h" "live h2 = live h"
    by auto
  have ys1: "?ys \<noteq> []"
  proof
    assume "?ys = []"
    then have "length ?ys = 0"
      by (simp only: list.size)
    then show False
      using n2 by simp
  qed
  have ys: "distinct ?ys" "0 \<notin> set ?ys" "head \<notin> set ?ys"
    using hd by simp_all
  obtain y0 rest where cons: "?ys = y0 # rest"
    using ys1 by (cases ?ys) auto
  have tl: "tail = y0"
    using h2(2) cons by simp
  let ?h4 = "set_prev (set_next h2 head tail) tail head"
  have s4: "seg (nxt ?h4) y0 (y0 # rest) 0"
    using h2(2) ys(3) cons tl by (auto simp: seg_upd)
  have dz: "distinct (y0 # rest)" "0 \<notin> set (y0 # rest)" "head \<notin> set (y0 # rest)"
    using ys cons by simp_all
  from relink_loop_spec [OF s4 dz(1,2)] obtain h5 where
    h5: "relink_loop ?h4 y0 = Some (h5, last (y0 # rest))"
      "linked (nxt h5) (prv h5) (y0 # rest)" "nxt h5 = nxt ?h4"
      "\<forall>q. q \<notin> set rest \<longrightarrow> prv h5 q = prv ?h4 q"
      "val h5 = val ?h4" "cstr h5 = cstr ?h4" "live h5 = live ?h4"
    by blast
  let ?t = "last (y0 # rest)"
  let ?hf = "set_next (set_prev h5 head ?t) ?t head"
  have "?t \<in> set (y0 # rest)"
    by (rule last_in_set) simp
  with dz(3) have t1: "?t \<noteq> head"
    by metis
  have bl: "butlast (y0 # rest) @ [?t] = y0 # rest"
    by (rule append_butlast_last_id) simp
  have "distinct (butlast (y0 # rest) @ [?t])"
    unfolding bl by (rule dz(1))
  then have t2: "?t \<notin> set (butlast (y0 # rest))"
    by simp
  have t3: "y0 \<noteq> head" "y0 \<notin> set rest" "head \<notin> set rest"
    using dz by auto
  have res: "q_sort h head = Some ?hf"
    using hd(1) guard h2(1) h5(1) tl lh lh [symmetric]
    by (simp add: q_sort_def Let_def ends(3) del: last.simps)
  have nf: "nxt ?hf = (nxt h5)(?t := head)" and pf: "prv ?hf = (prv h5)(head := ?t)"
    by simp_all
  have a: "nxt ?hf head = y0" "prv ?hf y0 = head"
    unfolding nf pf using t1 t3 h5(3,4) tl by simp_all
  have "linked ((nxt h5)(?t := head)) (prv h5) (y0 # rest)"
    using h5(2) t2 by (subst linked_next_upd) simp_all
  then have b: "linked (nxt ?hf) (prv ?hf) (y0 # rest)"
    unfolding nf pf using t3(3) by (subst linked_prev_upd) simp_all
  have c: "nxt ?hf ?t = head" "prv ?hf head = ?t"
    unfolding nf pf by simp_all
  have "linked (nxt ?hf) (prv ?hf) (butlast (y0 # rest) @ [?t])"
    unfolding bl by (rule b)
  then have "linked (nxt ?hf) (prv ?hf) (butlast (y0 # rest) @ ?t # [head])"
    using c by (subst linked_append) simp
  then have "linked (nxt ?hf) (prv ?hf) ((butlast (y0 # rest) @ [?t]) @ [head])"
    by simp
  then have "linked (nxt ?hf) (prv ?hf) ((y0 # rest) @ [head])"
    unfolding bl .
  then have "linked (nxt ?hf) (prv ?hf) (head # ?ys @ [head])"
    using a cons by simp
  then have "is_queue ?hf head ?ys"
    using hd(1) ys by (simp add: is_queue_def)
  then show ?thesis
    using res False h5(5-7) h2(4-6) by simp
qed
lemma strcmp_less_iff:
  "strcmp a b < 0 \<longleftrightarrow> (a, b) \<in> lexord {(x, y). (of_char x :: nat) < of_char y}"
  by (induction a b rule: strcmp.induct) auto

lemma strcmp_le_iff: "strcmp a b \<le> 0 \<longleftrightarrow> lex_le a b"
  using strcmp_less_iff [of a b] strcmp_eq_0 [of a b] by (auto simp: lex_le_def simp del: strcmp_eq_0)

lemma strcmp_self [simp]: "strcmp a a = 0"
  by simp

lemma strcmp_total: "\<not> strcmp a b \<le> 0 \<Longrightarrow> strcmp b a \<le> 0"
  by (induction a b rule: strcmp.induct) (auto split: if_splits)

lemma strcmp_trans: "strcmp a b \<le> 0 \<Longrightarrow> strcmp b c \<le> 0 \<Longrightarrow> strcmp a c \<le> 0"
proof (induction a b arbitrary: c rule: strcmp.induct)
  case 1
  then show ?case by simp
next
  case (2 y ys)
  then show ?case by (cases c) auto
next
  case (3 x xs)
  then show ?case by simp
next
  case (4 x xs y ys)
  then show ?case
    by (cases c) (auto split: if_splits)
qed

lemma sorted_merge_list:
  assumes "sorted_wrt (\<lambda>a b. strcmp (k a) (k b) \<le> 0) xs"
    and "sorted_wrt (\<lambda>a b. strcmp (k a) (k b) \<le> 0) ys"
  shows "sorted_wrt (\<lambda>a b. strcmp (k a) (k b) \<le> 0) (merge_list k xs ys)"
  using assms
proof (induction k xs ys rule: merge_list.induct)
  case (3 k x xs y ys)
  show ?case
  proof (cases "strcmp (k x) (k y) \<le> 0")
    case True
    then have "\<forall>z \<in> set (y # ys). strcmp (k x) (k z) \<le> 0"
      using "3.prems"(2) by (auto intro: strcmp_trans)
    with True 3 show ?thesis by auto
  next
    case False
    then have yx: "strcmp (k y) (k x) \<le> 0"
      by (rule strcmp_total)
    then have "\<forall>z \<in> set (x # xs). strcmp (k y) (k z) \<le> 0"
      using "3.prems"(1) by (auto intro: strcmp_trans)
    with False 3 show ?thesis by auto
  qed
qed auto

lemma sorted_msort: "sorted_wrt (\<lambda>a b. strcmp (k a) (k b) \<le> 0) (msort k xs)"
proof (induction k xs rule: msort.induct)
  case (1 k xs)
  show ?case
  proof (cases "length xs \<le> 1")
    case True
    then show ?thesis
      by (subst msort.simps) (cases xs, auto)
  next
    case False
    then show ?thesis
      using 1 by (subst msort.simps) (simp add: Let_def sorted_merge_list)
  qed
qed

lemma filter_merge_list:
  assumes "sorted_wrt (\<lambda>a b. strcmp (k a) (k b) \<le> 0) xs"
  shows "filter (\<lambda>x. k x = s) (merge_list k xs ys)
     = filter (\<lambda>x. k x = s) xs @ filter (\<lambda>x. k x = s) ys"
  using assms
proof (induction k xs ys rule: merge_list.induct)
  case (3 k x xs y ys)
  show ?case
  proof (cases "strcmp (k x) (k y) \<le> 0")
    case True
    with 3 show ?thesis by simp
  next
    case False
    have "filter (\<lambda>z. k z = k y) (x # xs) = []"
      using False "3.prems" by (auto simp: filter_empty_conv)
    with False 3 show ?thesis by auto
  qed
qed auto

lemma filter_msort: "filter (\<lambda>x. k x = s) (msort k xs) = filter (\<lambda>x. k x = s) xs"
proof (induction k xs rule: msort.induct)
  case (1 k xs)
  show ?case
  proof (cases "length xs \<le> 1")
    case True
    then show ?thesis
      by (subst msort.simps) simp
  next
    case False
    let ?m = "(length xs + 1) div 2"
    have "filter (\<lambda>x. k x = s) (msort k xs)
        = filter (\<lambda>x. k x = s) (take ?m xs) @ filter (\<lambda>x. k x = s) (drop ?m xs)"
      using False 1 by (subst msort.simps) (simp add: Let_def filter_merge_list sorted_msort)
    also have "\<dots> = filter (\<lambda>x. k x = s) (take ?m xs @ drop ?m xs)"
      by (simp only: filter_append)
    finally show ?thesis
      by (simp only: append_take_drop_id)
  qed
qed
subsection \<open>Well-formedness\<close>

lemma linked_circular:
  "linked n p l \<Longrightarrow> (\<forall>a \<in> set (butlast l). p (n a) = a) \<and> (\<forall>b \<in> set (tl l). n (p b) = b)"
  by (induction n p l rule: linked.induct) auto

lemma is_queue_circular:
  assumes "is_queue h head xs"
  shows "circular h head xs"
proof -
  from assms have "linked (nxt h) (prv h) (head # xs @ [head])"
    by (simp add: is_queue_def)
  from linked_circular [OF this]
  have "\<forall>a \<in> set (head # xs). prv h (nxt h a) = a" "\<forall>b \<in> set (xs @ [head]). nxt h (prv h b) = b"
    by (simp_all add: butlast_append)
  then show ?thesis
    by (auto simp: circular_def list_all_iff)
qed

lemma dup_loop_queue:
  assumes "is_queue h head (pre @ node # rest)"
  shows "\<exists>h1 dp1 node1 ys. dup_loop head h dp node (nxt h node) = Some (h1, dp1, node1) \<and>
     is_queue (del_if_match h1 dp1 node1) head ys"
  using assms
proof (induction rest arbitrary: h pre node dp)
  case Nil
  have "nxt h node = head"
    using is_queue_next [OF Nil] by simp
  then have "dup_loop head h dp node (nxt h node) = Some (h, dp, node)"
    by (subst dup_loop.simps) simp
  moreover have "is_queue (list_del h node) head pre"
    using list_del_queue [OF Nil] by simp
  ultimately show ?case
    using Nil by (auto simp: del_if_match_def)
next
  case (Cons r rest)
  let ?dp1 = "val h r AND dup_mask h dp node r"
  let ?h1 = "del_if_match h ?dp1 node"
  have r: "nxt h node = r" "r \<noteq> head"
    using is_queue_next [OF Cons.prems] Cons.prems by (auto simp: is_queue_def)
  have step: "dup_loop head h dp node (nxt h node) = dup_loop head ?h1 ?dp1 r (nxt ?h1 r)"
    using r by (subst dup_loop.simps) (simp add: Let_def)
  have "is_queue ?h1 head (pre @ r # rest) \<or> is_queue ?h1 head ((pre @ [node]) @ r # rest)"
    using list_del_queue [OF Cons.prems] Cons.prems by (simp add: del_if_match_def)
  then show ?case
    using Cons.IH [of ?h1 pre r ?dp1] Cons.IH [of ?h1 "pre @ [node]" r ?dp1]
    unfolding step by blast
qed

lemma q_delete_dup_queue:
  assumes "is_queue h head xs"
  shows "\<exists>h' ys. q_delete_dup h head = Some (True, h') \<and> is_queue h' head ys"
proof (cases xs)
  case Nil
  with assms have "nxt h head = head" "head \<noteq> 0"
    by (auto simp: is_queue_def)
  then have "q_delete_dup h head = Some (True, h)"
    by (simp add: q_delete_dup_def) (subst dup_loop.simps, simp)
  with assms show ?thesis
    by blast
next
  case (Cons x rest)
  with assms have n: "nxt h head = x" "head \<noteq> 0"
    using is_queue_head_next [OF assms] by (auto simp: is_queue_def)
  from dup_loop_queue [of h head "[]" x rest 0] assms Cons obtain h1 dp1 node1 ys where
    "dup_loop head h 0 x (nxt h x) = Some (h1, dp1, node1)"
    "is_queue (del_if_match h1 dp1 node1) head ys"
    by auto
  then show ?thesis
    using n by (auto simp: q_delete_dup_def)
qed

lemma q_remove_queue:
  assumes "is_queue h head xs"
  shows "case q_remove_head h head sp buf bufsize past of
       None \<Rightarrow> xs = [] | Some (node, h', b) \<Rightarrow> node = hd xs \<and> is_queue h' head (tl xs)"
    and "case q_remove_tail h head sp buf bufsize past of
       None \<Rightarrow> xs = [] | Some (node, h', b) \<Rightarrow> node = last xs \<and> is_queue h' head (butlast xs)"
proof -
  from assms have hd: "head \<noteq> 0"
    by (simp add: is_queue_def)
  show "case q_remove_head h head sp buf bufsize past of
       None \<Rightarrow> xs = [] | Some (node, h', b) \<Rightarrow> node = hd xs \<and> is_queue h' head (tl xs)"
  proof (cases "xs = []")
    case True
    with assms show ?thesis
      by (simp add: q_remove_head_def is_queue_def list_empty_def)
  next
    case False
    then show ?thesis
      using hd is_queue_nonempty [OF assms False] list_del_first [OF assms False]
      by (simp add: q_remove_head_def Let_def)
  qed
  show "case q_remove_tail h head sp buf bufsize past of
       None \<Rightarrow> xs = [] | Some (node, h', b) \<Rightarrow> node = last xs \<and> is_queue h' head (butlast xs)"
  proof (cases "xs = []")
    case True
    with assms show ?thesis
      by (simp add: q_remove_tail_def is_queue_def list_empty_def)
  next
    case False
    then show ?thesis
      using hd is_queue_nonempty [OF assms False] list_del_last [OF assms False]
      by (simp add: q_remove_tail_def Let_def)
  qed
qed

lemma is_queue_malloc [simp]: "is_queue (malloc h p) head xs = is_queue h head xs"
  and is_queue_free [simp]: "is_queue (free h p) head xs = is_queue h head xs"
  and is_queue_strdup [simp]: "is_queue (strdup h s p) head xs = is_queue h head xs"
  and is_queue_set_value [simp]: "is_queue (set_value h p q) head xs = is_queue h head xs"
  by (simp_all add: is_queue_def)

lemma q_insert_queue:
  assumes "is_queue h head xs" "pn \<notin> set (head # xs)"
  shows "\<exists>ys. is_queue (snd (q_insert_head h head s pn ps)) head ys"
    and "\<exists>ys. is_queue (snd (q_insert_tail h head s pn ps)) head ys"
proof -
  from assms have hd: "head \<noteq> 0"
    by (simp add: is_queue_def)
  let ?h2 = "set_value (strdup (malloc h pn) s ps) pn ps"
  have q2: "is_queue ?h2 head xs" "is_queue ?h2 head ([] @ xs)" "is_queue (free ?h2 pn) head xs"
    using assms(1) by (simp_all add: is_queue_def)
  show "\<exists>ys. is_queue (snd (q_insert_head h head s pn ps)) head ys"
  proof (cases "pn = 0 \<or> ps = 0")
    case True
    then show ?thesis
      using hd assms(1) q2(3) by (auto simp: q_insert_head_def Let_def)
  next
    case False
    then have "q_insert_head h head s pn ps = (True, list_add ?h2 pn head)"
      using hd by (simp add: q_insert_head_def Let_def)
    then show ?thesis
      using list_add_queue [OF q2(2), of pn] False assms(2) by auto
  qed
  show "\<exists>ys. is_queue (snd (q_insert_tail h head s pn ps)) head ys"
  proof (cases "pn = 0 \<or> ps = 0")
    case True
    then show ?thesis
      using hd assms(1) q2(3) by (auto simp: q_insert_tail_def Let_def)
  next
    case False
    then have "q_insert_tail h head s pn ps = (True, list_add_tail ?h2 pn head)"
      using hd by (simp add: q_insert_tail_def Let_def)
    then show ?thesis
      using list_add_tail_queue [OF q2(1), of pn] False assms(2) by auto
  qed
qed


lemma ring_okI: "is_queue h head xs \<Longrightarrow> ring_ok h head xs"
  by (simp add: ring_ok_def is_queue_circular)

subsection \<open>The example queues\<close>

lemma five_queue_facts:
  "is_queue five_queue 0x1000 [0x2000, 0x2020, 0x2040, 0x2060, 0x2080]"
  "strings five_queue [0x2000, 0x2020, 0x2040, 0x2060, 0x2080] = [''a'', ''b'', ''c'', ''d'', ''e'']"
  "map (val five_queue) [0x2000, 0x2020, 0x2040, 0x2060, 0x2080]
     = [0x3000, 0x3020, 0x3040, 0x3060, 0x3080]"
  using queue_of_spec [of "0x1000" "[(''a'', 0x2000, 0x3000), (''b'', 0x2020, 0x3020),
      (''c'', 0x2040, 0x3040), (''d'', 0x2060, 0x3060), (''e'', 0x2080, 0x3080)]"]
    queue_of_blocks(1) [of "0x1000" "[(''a'', 0x2000, 0x3000), (''b'', 0x2020, 0x3020),
      (''c'', 0x2040, 0x3040), (''d'', 0x2060, 0x3060), (''e'', 0x2080, 0x3080)]"]
  by (simp_all add: five_queue_def)

lemma six_queue_facts:
  "is_queue six_queue 0x1000 [0x2000, 0x2020, 0x2040, 0x2060, 0x2080, 0x20a0]"
  "strings six_queue [0x2000, 0x2020, 0x2040, 0x2060, 0x2080, 0x20a0]
     = [''a'', ''b'', ''c'', ''d'', ''e'', ''f'']"
  "map (val six_queue) [0x2000, 0x2020, 0x2040, 0x2060, 0x2080, 0x20a0]
     = [0x3000, 0x3020, 0x3040, 0x3060, 0x3080, 0x30a0]"
  using queue_of_spec [of "0x1000" "[(''a'', 0x2000, 0x3000), (''b'', 0x2020, 0x3020),
      (''c'', 0x2040, 0x3040), (''d'', 0x2060, 0x3060), (''e'', 0x2080, 0x3080),
      (''f'', 0x20a0, 0x30a0)]"]
    queue_of_blocks(1) [of "0x1000" "[(''a'', 0x2000, 0x3000), (''b'', 0x2020, 0x3020),
      (''c'', 0x2040, 0x3040), (''d'', 0x2060, 0x3060), (''e'', 0x2080, 0x3080),
      (''f'', 0x20a0, 0x30a0)]"]
  by (simp_all add: six_queue_def)

lemma five_queue_cstr:
  "cstr five_queue 0x3000 = ''a''" "cstr five_queue 0x3020 = ''b''"
  "cstr five_queue 0x3040 = ''c''" "cstr five_queue 0x3060 = ''d''"
  "cstr five_queue 0x3080 = ''e''"
  using five_queue_facts(2,3) by (simp_all add: strings_def)

lemma six_queue_cstr:
  "cstr six_queue 0x3000 = ''a''" "cstr six_queue 0x3020 = ''b''"
  "cstr six_queue 0x3040 = ''c''" "cstr six_queue 0x3060 = ''d''"
  "cstr six_queue 0x3080 = ''e''" "cstr six_queue 0x30a0 = ''f''"
  using six_queue_facts(2,3) by (simp_all add: strings_def)

lemma sort_queue_facts:
  "is_queue sort_queue 0x1000 [0x2000, 0x2020, 0x2040, 0x2060]"
  "strings sort_queue [0x2000, 0x2020, 0x2040, 0x2060] = [''b'', ''c'', ''a'', ''b'']"
  "map (val sort_queue) [0x2000, 0x2020, 0x2040, 0x2060] = [0x3000, 0x3020, 0x3040, 0x3060]"
  using queue_of_spec [of "0x1000" "[(''b'', 0x2000, 0x3000), (''c'', 0x2020, 0x3020),
      (''a'', 0x2040, 0x3040), (''b'', 0x2060, 0x3060)]"]
    queue_of_blocks(1) [of "0x1000" "[(''b'', 0x2000, 0x3000), (''c'', 0x2020, 0x3020),
      (''a'', 0x2040, 0x3040), (''b'', 0x2060, 0x3060)]"]
  by (simp_all add: sort_queue_def)

lemma sort_queue_cstr:
  "cstr sort_queue 0x3000 = ''b''" "cstr sort_queue 0x3020 = ''c''"
  "cstr sort_queue 0x3040 = ''a''" "cstr sort_queue 0x3060 = ''b''"
  using sort_queue_facts(2,3) by (simp_all add: strings_def)

lemma sort_queue_msort:
  "msort (\<lambda>x. cstr sort_queue (val sort_queue x)) [0x2000, 0x2020, 0x2040, 0x2060]
     = [0x2040, 0x2000, 0x2060, 0x2020]"
  using sort_queue_facts(3) by (simp add: msort.simps sort_queue_cstr)

section \<open>Removal with a buffer of size zero\<close>



section \<open>Removal with copy-out\<close>

text \<open>
  C1. The queue holds \<open>''hello''\<close> at its head; the caller passes a buffer of 16 bytes
  at the address \<open>0x7ffd00000004\<close>. \<open>q_remove_head\<close> copies three characters and a NUL,
  not the five characters of the string: the copy length is also bounded by the low 32
  bits of the address, here 4, minus one.
\<close>

theorem remove_head_short_copy:
  "q_remove_head two_queue 0x1000 0x7ffd00000004 hashes 16 stray
     = Some (0x2000, list_del two_queue 0x2000,
         hashes(3 := CHR 0x00, 2 := CHR ''l'', 1 := CHR ''e'', 0 := CHR ''h''))"
  using is_queue_nonempty [OF two_queue_is_queue]
  by (simp add: q_remove_head_def Let_def two_queue_strings min_c_def abs_branchless_def
      strlen_def word_sless_alt copy_loop.simps value_at_def word_sle_eq)

section \<open>Insertion\<close>

text \<open>
  C7. \<open>q_insert_head\<close> and \<open>q_insert_tail\<close> answer \<open>False\<close> and leave the store as it was
  when the queue is null or the element's \<^verbatim>\<open>malloc\<close> fails (\<open>pn = 0\<close>). When \<^verbatim>\<open>strdup\<close>
  fails (\<open>ps = 0\<close>) they answer \<open>False\<close>, the element's block is freed again (the live
  blocks are those of before) and the queue and its strings are unchanged. When both
  allocations succeed they answer \<open>True\<close> and the queue has gained exactly the new
  element \<open>pn\<close>, first (last) in order, whose string is \<open>s\<close>, held in the new block \<open>ps\<close>.
  The allocator answers with addresses that are not in use: \<open>pn\<close> is no node of the
  queue and not live, \<open>ps\<close> is no string of the queue.
\<close>

theorem insert_contract:
  assumes "is_queue h head xs"
    and "pn \<notin> set (head # xs)" and "pn \<notin> live h" and "ps \<notin> val h ` set xs"
  shows "q_insert_head h 0 s pn ps = (False, h) \<and> q_insert_tail h 0 s pn ps = (False, h) \<and>
     q_insert_head h head s 0 ps = (False, h) \<and> q_insert_tail h head s 0 ps = (False, h) \<and>
     (pn \<noteq> 0 \<longrightarrow>
        (\<forall>r \<in> {q_insert_head h head s pn 0, q_insert_tail h head s pn 0}.
           \<not> fst r \<and> live (snd r) = live h \<and> is_queue (snd r) head xs \<and>
           strings (snd r) xs = strings h xs)) \<and>
     (pn \<noteq> 0 \<and> ps \<noteq> 0 \<longrightarrow>
        fst (q_insert_head h head s pn ps) \<and>
        is_queue (snd (q_insert_head h head s pn ps)) head (pn # xs) \<and>
        strings (snd (q_insert_head h head s pn ps)) (pn # xs) = s # strings h xs \<and>
        live (snd (q_insert_head h head s pn ps)) = live h \<union> {pn, ps} \<and>
        val (snd (q_insert_head h head s pn ps)) pn = ps \<and>
        fst (q_insert_tail h head s pn ps) \<and>
        is_queue (snd (q_insert_tail h head s pn ps)) head (xs @ [pn]) \<and>
        strings (snd (q_insert_tail h head s pn ps)) (xs @ [pn]) = strings h xs @ [s] \<and>
        live (snd (q_insert_tail h head s pn ps)) = live h \<union> {pn, ps} \<and>
        val (snd (q_insert_tail h head s pn ps)) pn = ps)"
proof -
  from assms have hd: "head \<noteq> 0"
    by (simp add: is_queue_def)
  have null: "q_insert_head h 0 s pn ps = (False, h)" "q_insert_tail h 0 s pn ps = (False, h)"
    by (simp_all add: q_insert_head_def q_insert_tail_def)
  have nonode: "q_insert_head h head s 0 ps = (False, h)" "q_insert_tail h head s 0 ps = (False, h)"
    using hd by (simp_all add: q_insert_head_def q_insert_tail_def malloc_def)
  have nostr: "\<forall>r \<in> {q_insert_head h head s pn 0, q_insert_tail h head s pn 0}.
           \<not> fst r \<and> live (snd r) = live h \<and> is_queue (snd r) head xs \<and>
           strings (snd r) xs = strings h xs" if "pn \<noteq> 0"
    using q_insert_no_string(1,2) [OF assms(1) that assms(2,3), of s]
      q_insert_no_string(3,4) [OF assms(1) that assms(2,3)] by simp
  have ok: "fst (q_insert_head h head s pn ps) \<and>
        is_queue (snd (q_insert_head h head s pn ps)) head (pn # xs) \<and>
        strings (snd (q_insert_head h head s pn ps)) (pn # xs) = s # strings h xs \<and>
        live (snd (q_insert_head h head s pn ps)) = live h \<union> {pn, ps} \<and>
        val (snd (q_insert_head h head s pn ps)) pn = ps \<and>
        fst (q_insert_tail h head s pn ps) \<and>
        is_queue (snd (q_insert_tail h head s pn ps)) head (xs @ [pn]) \<and>
        strings (snd (q_insert_tail h head s pn ps)) (xs @ [pn]) = strings h xs @ [s] \<and>
        live (snd (q_insert_tail h head s pn ps)) = live h \<union> {pn, ps} \<and>
        val (snd (q_insert_tail h head s pn ps)) pn = ps" if "pn \<noteq> 0" "ps \<noteq> 0"
    using q_insert_head_ok [OF assms(1) that assms(2,4), of s]
      q_insert_tail_ok [OF assms(1) that assms(2,4), of s] by auto
  from null nonode nostr ok show ?thesis
    by blast
qed

theorem insert_contract_witness:
  "is_queue two_queue 0x1000 [0x2000, 0x2020] \<and>
   \<not> fst (q_insert_head two_queue 0x1000 ''new'' 0x2040 0) \<and>
   live (snd (q_insert_head two_queue 0x1000 ''new'' 0x2040 0)) = live two_queue \<and>
   fst (q_insert_head two_queue 0x1000 ''new'' 0x2040 0x3040) \<and>
   is_queue (snd (q_insert_head two_queue 0x1000 ''new'' 0x2040 0x3040)) 0x1000
     [0x2040, 0x2000, 0x2020] \<and>
   strings (snd (q_insert_head two_queue 0x1000 ''new'' 0x2040 0x3040))
     [0x2040, 0x2000, 0x2020] = [''new'', ''hello'', ''bye''] \<and>
   is_queue (snd (q_insert_tail two_queue 0x1000 ''new'' 0x2040 0x3040)) 0x1000
     [0x2000, 0x2020, 0x2040] \<and>
   strings (snd (q_insert_tail two_queue 0x1000 ''new'' 0x2040 0x3040))
     [0x2000, 0x2020, 0x2040] = [''hello'', ''bye'', ''new'']"
  using insert_contract [OF two_queue_is_queue, of "0x2040" "0x3040" "''new''"]
    insert_contract [OF two_queue_is_queue, of "0x2040" 0 "''new''"]
    two_queue_is_queue
  by (clarsimp simp add: two_queue_blocks two_queue_cstr strings_def)

section \<open>Deleting the middle element\<close>

text \<open>
  C4. On a queue of \<open>n > 0\<close> elements \<open>q_delete_mid\<close> answers \<open>True\<close>, unlinks exactly the
  element at zero-based index \<open>n div 2\<close>, leaving the others in their order with their
  strings, and frees that element and its string. It answers \<open>False\<close> and changes
  nothing when the queue is null or empty, and only then.
\<close>

theorem delete_mid_floor_half:
  assumes "is_queue h head xs"
  shows "q_delete_mid h 0 = Some (False, h) \<and>
     (xs = [] \<longrightarrow> q_delete_mid h head = Some (False, h)) \<and>
     (xs \<noteq> [] \<longrightarrow>
        (let m = length xs div 2;
             h' = q_release_element (list_del h (xs ! m)) (xs ! m)
         in q_delete_mid h head = Some (True, h') \<and>
            is_queue h' head (take m xs @ drop (Suc m) xs) \<and>
            strings h' (take m xs @ drop (Suc m) xs)
              = take m (strings h xs) @ drop (Suc m) (strings h xs) \<and>
            live h' = live h - {val h (xs ! m), xs ! m}))"
proof -
  have "q_delete_mid h 0 = Some (False, h)"
    by (simp add: q_delete_mid_def)
  moreover have "q_delete_mid h head = Some (False, h)" if "xs = []"
    using assms that by (simp add: q_delete_mid_def is_queue_def list_empty_def)
  ultimately show ?thesis
    using q_delete_mid_spec [OF assms] by (simp add: Let_def)
qed

theorem delete_mid_floor_half_witness:
  "is_queue five_queue 0x1000 [0x2000, 0x2020, 0x2040, 0x2060, 0x2080] \<and>
   q_delete_mid five_queue 0x1000
     = Some (True, q_release_element (list_del five_queue 0x2040) 0x2040) \<and>
   is_queue (q_release_element (list_del five_queue 0x2040) 0x2040) 0x1000
     [0x2000, 0x2020, 0x2060, 0x2080] \<and>
   strings (q_release_element (list_del five_queue 0x2040) 0x2040)
     [0x2000, 0x2020, 0x2060, 0x2080] = [''a'', ''b'', ''d'', ''e'']"
  using delete_mid_floor_half [OF five_queue_facts(1)] five_queue_facts(1,3)
  by (simp add: Let_def strings_def five_queue_cstr)

text \<open>
  C3, as the code has it. On a queue holding \<open>a, b, c, d, e, f\<close>, \<open>q_delete_mid\<close> unlinks
  and frees the element at index 3, the one holding \<open>d\<close>, and leaves \<open>a, b, c, e, f\<close>.
\<close>

theorem delete_mid_six:
  assumes "is_queue h head xs" and "strings h xs = [''a'', ''b'', ''c'', ''d'', ''e'', ''f'']"
  shows "q_delete_mid h head = Some (True, q_release_element (list_del h (xs ! 3)) (xs ! 3)) \<and>
     cstr h (val h (xs ! 3)) = ''d'' \<and>
     is_queue (q_release_element (list_del h (xs ! 3)) (xs ! 3)) head (take 3 xs @ drop 4 xs) \<and>
     strings (q_release_element (list_del h (xs ! 3)) (xs ! 3)) (take 3 xs @ drop 4 xs)
       = [''a'', ''b'', ''c'', ''e'', ''f''] \<and>
     live (q_release_element (list_del h (xs ! 3)) (xs ! 3)) = live h - {val h (xs ! 3), xs ! 3}"
proof -
  have "length (strings h xs) = 6"
    by (simp add: assms(2))
  then have len: "length xs = 6"
    by (simp add: strings_def)
  then have ne: "xs \<noteq> []" and m: "length xs div 2 = 3"
    by auto
  have "strings h xs ! 3 = cstr h (val h (xs ! 3))"
    using len by (simp add: strings_def)
  then have d: "cstr h (val h (xs ! 3)) = ''d''"
    using assms(2) by simp
  show ?thesis
    using q_delete_mid_spec [OF assms(1) ne] d by (simp add: m assms(2))
qed


theorem delete_mid_six_witness:
  "is_queue six_queue 0x1000 [0x2000, 0x2020, 0x2040, 0x2060, 0x2080, 0x20a0] \<and>
   strings six_queue [0x2000, 0x2020, 0x2040, 0x2060, 0x2080, 0x20a0]
     = [''a'', ''b'', ''c'', ''d'', ''e'', ''f''] \<and>
   q_delete_mid six_queue 0x1000
     = Some (True, q_release_element (list_del six_queue 0x2060) 0x2060) \<and>
   cstr six_queue (val six_queue 0x2060) = ''d'' \<and>
   strings (q_release_element (list_del six_queue 0x2060) 0x2060)
     [0x2000, 0x2020, 0x2040, 0x2080, 0x20a0] = [''a'', ''b'', ''c'', ''e'', ''f'']"
  using delete_mid_six [OF six_queue_facts(1,2)] six_queue_facts(1,2)
  by simp

text \<open>
  C3 with index 2 fails on the example queue of six: what is left is \<open>a, b, c, e, f\<close>, not
  \<open>a, b, d, e, f\<close>; the element holding \<open>c\<close> stays.
\<close>

theorem delete_mid_six_counterexample:
  "q_delete_mid six_queue 0x1000
     = Some (True, q_release_element (list_del six_queue 0x2060) 0x2060) \<and>
   is_queue (q_release_element (list_del six_queue 0x2060) 0x2060) 0x1000
     [0x2000, 0x2020, 0x2040, 0x2080, 0x20a0] \<and>
   strings (q_release_element (list_del six_queue 0x2060) 0x2060)
     [0x2000, 0x2020, 0x2040, 0x2080, 0x20a0] = [''a'', ''b'', ''c'', ''e'', ''f''] \<and>
   strings (q_release_element (list_del six_queue 0x2060) 0x2060)
     [0x2000, 0x2020, 0x2040, 0x2080, 0x20a0] \<noteq> [''a'', ''b'', ''d'', ''e'', ''f'']"
  using q_delete_mid_spec(1,2) [OF six_queue_facts(1)] six_queue_facts(3)
  by (simp add: strings_def six_queue_cstr)

section \<open>Swapping adjacent pairs\<close>

text \<open>
  C9. On every queue \<open>q_swap\<close> returns, and the elements are then in the order
  \<open>swap_pairs xs\<close>: the elements at the zero-based positions \<open>2 i\<close> and \<open>2 i + 1\<close> have
  changed places, and with an odd count the last element is where it was. No block is
  allocated or freed and no string changes. A queue holding \<open>a, b, c, d, e\<close> holds
  \<open>b, a, d, c, e\<close> afterwards.
\<close>

theorem swap_adjacent_pairs:
  assumes "is_queue h head xs"
  shows "\<exists>h'. q_swap h head = Some h' \<and> is_queue h' head (swap_pairs xs) \<and>
       strings h' (swap_pairs xs) = swap_pairs (strings h xs) \<and>
       val h' = val h \<and> cstr h' = cstr h \<and> live h' = live h \<and>
       length (swap_pairs xs) = length xs \<and>
       (\<forall>i. Suc (2 * i) < length xs \<longrightarrow>
          swap_pairs xs ! (2 * i) = xs ! Suc (2 * i) \<and>
          swap_pairs xs ! Suc (2 * i) = xs ! (2 * i)) \<and>
       (odd (length xs) \<longrightarrow> last (swap_pairs xs) = last xs) \<and>
       (strings h xs = [''a'', ''b'', ''c'', ''d'', ''e''] \<longrightarrow>
          strings h' (swap_pairs xs) = [''b'', ''a'', ''d'', ''c'', ''e''])"
proof -
  from q_swap_spec [OF assms] obtain h' where
    h': "q_swap h head = Some h'" "is_queue h' head (swap_pairs xs)"
      "val h' = val h" "cstr h' = cstr h" "live h' = live h"
    by blast
  have s: "strings h' (swap_pairs xs) = swap_pairs (strings h xs)"
    by (simp add: strings_def h'(3,4) map_swap_pairs)
  have "strings h' (swap_pairs xs) = [''b'', ''a'', ''d'', ''c'', ''e'']"
    if "strings h xs = [''a'', ''b'', ''c'', ''d'', ''e'']"
    using s that by simp
  with h' s show ?thesis
    by (auto simp: swap_pairs_nth swap_pairs_odd_last)
qed

theorem swap_adjacent_pairs_witness:
  "is_queue five_queue 0x1000 [0x2000, 0x2020, 0x2040, 0x2060, 0x2080] \<and>
   strings five_queue [0x2000, 0x2020, 0x2040, 0x2060, 0x2080]
     = [''a'', ''b'', ''c'', ''d'', ''e''] \<and>
   (\<exists>h'. q_swap five_queue 0x1000 = Some h' \<and>
      is_queue h' 0x1000 [0x2020, 0x2000, 0x2060, 0x2040, 0x2080] \<and>
      strings h' [0x2020, 0x2000, 0x2060, 0x2040, 0x2080]
        = [''b'', ''a'', ''d'', ''c'', ''e''] \<and>
      live h' = live five_queue)"
  using swap_adjacent_pairs [OF five_queue_facts(1)] five_queue_facts(1,2)
  by auto

section \<open>Reversing\<close>

text \<open>
  C8. On every queue \<open>q_reverse\<close> returns; the elements are then in reverse order, the
  same nodes with the same strings, and the live blocks are those of before. Reversing
  the result gives back the store one started from. On a null queue it does nothing.
\<close>

theorem reverse_involution:
  assumes "is_queue h head xs"
  shows "q_reverse h 0 = Some h \<and>
     (\<exists>h'. q_reverse h head = Some h' \<and> is_queue h' head (rev xs) \<and>
        strings h' (rev xs) = rev (strings h xs) \<and>
        val h' = val h \<and> cstr h' = cstr h \<and> live h' = live h \<and>
        q_reverse h' head = Some h)"
proof -
  from q_reverse_spec [OF assms] obtain h' where
    h': "q_reverse h head = Some h'" "is_queue h' head (rev xs)"
      "val h' = val h" "cstr h' = cstr h" "live h' = live h" "q_reverse h' head = Some h"
    by blast
  have "strings h' (rev xs) = rev (strings h xs)"
    by (simp add: strings_def h'(3,4) rev_map)
  with h' show ?thesis
    by (simp add: q_reverse_def)
qed

theorem reverse_involution_witness:
  "is_queue five_queue 0x1000 [0x2000, 0x2020, 0x2040, 0x2060, 0x2080] \<and>
   (\<exists>h'. q_reverse five_queue 0x1000 = Some h' \<and>
      is_queue h' 0x1000 [0x2080, 0x2060, 0x2040, 0x2020, 0x2000] \<and>
      strings h' [0x2080, 0x2060, 0x2040, 0x2020, 0x2000]
        = [''e'', ''d'', ''c'', ''b'', ''a''] \<and>
      q_reverse h' 0x1000 = Some five_queue)"
  using reverse_involution [OF five_queue_facts(1)] five_queue_facts(1,2)
  by auto

section \<open>Deleting duplicates\<close>

text \<open>
  C2. The queue holds \<open>a, a, b, c, c\<close>, sorted. \<open>q_delete_dup\<close> answers \<open>True\<close> and leaves
  the queue \<open>a, b\<close>: of the two elements holding \<open>a\<close> the second stays, where the spec
  and the comment above the function (delete all nodes that have a duplicate string)
  leave \<open>b\<close> alone. In the loop an element is deleted only when its successor holds the
  same string; the last element of a run of equal strings is deleted only when it is
  the last element of the queue.
\<close>

theorem delete_dup_keeps_one:
  "outcome 0x1000 [0x2020, 0x2040] (q_delete_dup dup_queue 0x1000)
     = Some (True, True, [''a'', ''b''])"
proof -
  have "\<forall>x \<in> set [0x2000, 0x2020, 0x2040, 0x2060, 0x2080 :: ptr].
      val dup_queue x \<noteq> 0 \<and> val dup_queue x AND 1 = 0"
    using dup_queue_facts(3) by simp
  from q_delete_dup_spec [OF dup_queue_facts(1) this] obtain h' where
    "q_delete_dup dup_queue 0x1000 = Some (True, h')"
    "is_queue h' 0x1000 (dup_kept (\<lambda>x. cstr dup_queue (val dup_queue x)) False
        [0x2000, 0x2020, 0x2040, 0x2060, 0x2080])"
    "val h' = val dup_queue" "cstr h' = cstr dup_queue"
    by blast
  then show ?thesis
    using dup_queue_facts(3) by (simp add: outcome_def strings_def dup_queue_cstr)
qed

section \<open>Sorting\<close>

text \<open>
  C5. On every queue \<open>q_sort\<close> returns, and the elements are then in the order
  \<open>msort k xs\<close>, \<open>k\<close> giving each element's string: the same elements, their strings in
  ascending lexicographic order, and for every string the elements holding it in the
  order they had before (the sort is stable). Strings and live blocks are unchanged. A
  null queue and a queue of at most one element are left as they are.
\<close>

theorem sort_stable:
  assumes "is_queue h head xs"
  shows "q_sort h 0 = Some h \<and>
     (\<exists>h'. q_sort h head = Some h' \<and>
        is_queue h' head (msort (\<lambda>x. cstr h (val h x)) xs) \<and>
        val h' = val h \<and> cstr h' = cstr h \<and> live h' = live h \<and>
        (length xs \<le> 1 \<longrightarrow> h' = h)) \<and>
     set (msort (\<lambda>x. cstr h (val h x)) xs) = set xs \<and>
     length (msort (\<lambda>x. cstr h (val h x)) xs) = length xs \<and>
     sorted_wrt lex_le (strings h (msort (\<lambda>x. cstr h (val h x)) xs)) \<and>
     (\<forall>s. filter (\<lambda>x. cstr h (val h x) = s) (msort (\<lambda>x. cstr h (val h x)) xs)
          = filter (\<lambda>x. cstr h (val h x) = s) xs)"
proof -
  let ?k = "\<lambda>x. cstr h (val h x)"
  have "sorted_wrt (\<lambda>a b. lex_le (?k a) (?k b)) (msort ?k xs)"
    using sorted_msort [of ?k xs] by (simp add: strcmp_le_iff)
  then have "sorted_wrt lex_le (strings h (msort ?k xs))"
    by (simp add: strings_def sorted_wrt_map)
  moreover have "q_sort h 0 = Some h"
    by (simp add: q_sort_def)
  ultimately show ?thesis
    using q_sort_spec [OF assms] by (simp add: filter_msort)
qed

theorem sort_stable_witness:
  "is_queue sort_queue 0x1000 [0x2000, 0x2020, 0x2040, 0x2060] \<and>
   strings sort_queue [0x2000, 0x2020, 0x2040, 0x2060] = [''b'', ''c'', ''a'', ''b''] \<and>
   (\<exists>h'. q_sort sort_queue 0x1000 = Some h' \<and>
      is_queue h' 0x1000 [0x2040, 0x2000, 0x2060, 0x2020] \<and>
      strings h' [0x2040, 0x2000, 0x2060, 0x2020] = [''a'', ''b'', ''b'', ''c''])"
proof -
  from sort_stable [OF sort_queue_facts(1)] obtain h' where
    "q_sort sort_queue 0x1000 = Some h'"
    "is_queue h' 0x1000 [0x2040, 0x2000, 0x2060, 0x2020]"
    "val h' = val sort_queue" "cstr h' = cstr sort_queue"
    unfolding sort_queue_msort by blast
  then show ?thesis
    using sort_queue_facts by (auto simp: strings_def sort_queue_cstr)
qed

section \<open>Well-formedness is kept\<close>

text \<open>
  C6. A well-formed queue satisfies the invariant: for every node of the ring, the
  sentinel included, its successor's predecessor and its predecessor's successor is the
  node itself. Every operation applied to a well-formed queue returns and leaves a
  well-formed queue, with the invariant for every remaining node: both insertions
  (whether they succeed or fail; the allocator answers with an address \<open>pn\<close> that is no
  node of the queue), both removals, \<open>q_delete_mid\<close>, \<open>q_delete_dup\<close>, \<open>q_swap\<close>,
  \<open>q_reverse\<close> and \<open>q_sort\<close>.
\<close>

theorem operations_keep_ring:
  assumes "is_queue h head xs" and "pn \<notin> set (head # xs)"
  shows "circular h head xs \<and>
     (\<exists>ys. ring_ok (snd (q_insert_head h head s pn ps)) head ys) \<and>
     (\<exists>ys. ring_ok (snd (q_insert_tail h head s pn ps)) head ys) \<and>
     (case q_remove_head h head sp buf bufsize past of
        None \<Rightarrow> xs = [] | Some (node, h', b) \<Rightarrow> ring_ok h' head (tl xs)) \<and>
     (case q_remove_tail h head sp buf bufsize past of
        None \<Rightarrow> xs = [] | Some (node, h', b) \<Rightarrow> ring_ok h' head (butlast xs)) \<and>
     (\<exists>b h' ys. q_delete_mid h head = Some (b, h') \<and> ring_ok h' head ys) \<and>
     (\<exists>h' ys. q_delete_dup h head = Some (True, h') \<and> ring_ok h' head ys) \<and>
     (\<exists>h'. q_swap h head = Some h' \<and> ring_ok h' head (swap_pairs xs)) \<and>
     (\<exists>h'. q_reverse h head = Some h' \<and> ring_ok h' head (rev xs)) \<and>
     (\<exists>h'. q_sort h head = Some h' \<and> ring_ok h' head (msort (\<lambda>x. cstr h (val h x)) xs))"
proof -
  have ins: "\<exists>ys. ring_ok (snd (q_insert_head h head s pn ps)) head ys"
    "\<exists>ys. ring_ok (snd (q_insert_tail h head s pn ps)) head ys"
    using q_insert_queue [OF assms, of s ps] by (auto intro: ring_okI)
  have rem: "case q_remove_head h head sp buf bufsize past of
        None \<Rightarrow> xs = [] | Some (node, h', b) \<Rightarrow> ring_ok h' head (tl xs)"
    "case q_remove_tail h head sp buf bufsize past of
        None \<Rightarrow> xs = [] | Some (node, h', b) \<Rightarrow> ring_ok h' head (butlast xs)"
    using q_remove_queue [OF assms(1), of sp buf bufsize past]
    by (auto split: option.splits intro: ring_okI)
  have mid: "\<exists>b h' ys. q_delete_mid h head = Some (b, h') \<and> ring_ok h' head ys"
  proof (cases "xs = []")
    case True
    with assms(1) have "q_delete_mid h head = Some (False, h)"
      by (simp add: q_delete_mid_def is_queue_def list_empty_def)
    with assms(1) show ?thesis
      by (blast intro: ring_okI)
  next
    case False
    from q_delete_mid_spec(1,2) [OF assms(1) False] show ?thesis
      by (blast intro: ring_okI)
  qed
  have dup: "\<exists>h' ys. q_delete_dup h head = Some (True, h') \<and> ring_ok h' head ys"
    using q_delete_dup_queue [OF assms(1)] by (blast intro: ring_okI)
  have swap: "\<exists>h'. q_swap h head = Some h' \<and> ring_ok h' head (swap_pairs xs)"
    using q_swap_spec [OF assms(1)] by (blast intro: ring_okI)
  have rev: "\<exists>h'. q_reverse h head = Some h' \<and> ring_ok h' head (rev xs)"
    using q_reverse_spec [OF assms(1)] by (blast intro: ring_okI)
  have sort: "\<exists>h'. q_sort h head = Some h' \<and>
      ring_ok h' head (msort (\<lambda>x. cstr h (val h x)) xs)"
    using q_sort_spec [OF assms(1)] by (blast intro: ring_okI)
  from is_queue_circular [OF assms(1)] ins rem mid dup swap rev sort show ?thesis
    by simp
qed


theorem operations_keep_ring_witness:
  "is_queue five_queue 0x1000 [0x2000, 0x2020, 0x2040, 0x2060, 0x2080] \<and>
   0x20a0 \<notin> set (0x1000 # [0x2000, 0x2020, 0x2040, 0x2060, 0x2080 :: ptr]) \<and>
   circular five_queue 0x1000 [0x2000, 0x2020, 0x2040, 0x2060, 0x2080] \<and>
   (\<exists>ys. ring_ok (snd (q_insert_tail five_queue 0x1000 ''f'' 0x20a0 0x30a0)) 0x1000 ys) \<and>
   (\<exists>h'. q_swap five_queue 0x1000 = Some h' \<and>
      ring_ok h' 0x1000 [0x2020, 0x2000, 0x2060, 0x2040, 0x2080]) \<and>
   (\<exists>h'. q_reverse five_queue 0x1000 = Some h' \<and>
      ring_ok h' 0x1000 [0x2080, 0x2060, 0x2040, 0x2020, 0x2000])"
  using operations_keep_ring [OF five_queue_facts(1), of "0x20a0" "''f''" "0x30a0" 0 hashes 0 stray]
    five_queue_facts(1)
  by simp

end
